theory Spec2Isabelle
  imports Main "HOL-Library.Word" "HOL-Library.Multiset"
begin

unbundle bit_operations_syntax

section \<open>The directory browser of open\_agb\_firm (source/arm11/filebrowser.c)\<close>

subsection \<open>Cursor and window arithmetic of browseFiles\<close>

text \<open>
  \<^verbatim>\<open>cursorPos\<close> is an \<^verbatim>\<open>s32\<close>, \<^verbatim>\<open>windowPos\<close> and \<^verbatim>\<open>num\<close> are \<^verbatim>\<open>u32\<close>. Both are
  32-bit words here: arithmetic wraps, a signed test reads the word with \<open>sint\<close>, and a
  comparison after the cast \<^verbatim>\<open>(u32)cursorPos\<close> is the unsigned order of words.
\<close>

type_synonym u32 = "32 word"
type_synonym s32 = "32 word"

definition SCREEN_ROWS :: u32 where
  "SCREEN_ROWS = 24"

text \<open>
  The key masks of hid.h are not part of the sources; \<^verbatim>\<open>kDown & KEY_X\<close> is modelled as
  membership of the key in the set of keys newly pressed.
\<close>

datatype key = KEY_A | KEY_B | KEY_DRIGHT | KEY_DLEFT | KEY_DUP | KEY_DDOWN

text \<open>Lines 250-265: the movement arithmetic, skipped for an empty list.\<close>

definition moveCursor :: "key set \<Rightarrow> u32 \<Rightarrow> s32 \<Rightarrow> s32" where
  "moveCursor kDown num cursorPos =
     (if num \<noteq> 0 then
        let c1 = (if KEY_DRIGHT \<in> kDown
                  then (let c = cursorPos + SCREEN_ROWS in if c > num then num - 1 else c)
                  else cursorPos);
            c2 = (if KEY_DLEFT \<in> kDown
                  then (let c = c1 - SCREEN_ROWS in if sint c < - 1 then 0 else c)
                  else c1);
            c3 = (if KEY_DUP \<in> kDown then c2 - 1 else c2);
            c4 = (if KEY_DDOWN \<in> kDown then c3 + 1 else c3)
        in c4
      else cursorPos)"

text \<open>Lines 267-268: the wrap, applied on every pass of the loop.\<close>

definition wrapCursor :: "u32 \<Rightarrow> s32 \<Rightarrow> s32" where
  "wrapCursor num cursorPos =
     (let c1 = (if sint cursorPos < 0 then num - 1 else cursorPos)
      in if c1 > num - 1 then 0 else c1)"

text \<open>Lines 270-279: the two scroll tests, one after the other.\<close>

definition scrollWindow :: "s32 \<Rightarrow> u32 \<Rightarrow> u32" where
  "scrollWindow cursorPos windowPos =
     (let w1 = (if cursorPos < windowPos then cursorPos else windowPos)
      in if cursorPos \<ge> w1 + SCREEN_ROWS then cursorPos - (SCREEN_ROWS - 1) else w1)"

text \<open>Lines 249-279 as one step on \<open>(cursorPos, windowPos)\<close>.\<close>

definition navStep :: "key set \<Rightarrow> u32 \<Rightarrow> s32 \<times> u32 \<Rightarrow> s32 \<times> u32" where
  "navStep kDown num cw =
     (let c = wrapCursor num (moveCursor kDown num (fst cw))
      in (c, scrollWindow c (snd cw)))"

subsection \<open>C strings\<close>

text \<open>
  A \<^verbatim>\<open>char\<close> buffer is a \<open>string\<close>; the C string it holds ends before the first NUL
  byte (or with the buffer). \<open>strlen\<close> and \<open>strcmp\<close> are the C library's, read that
  way; \<open>strcmp\<close> compares bytes as unsigned values and returns the difference of the
  first pair that differs.
\<close>

definition NUL :: char where
  "NUL = CHR 0x00"

definition cstr :: "string \<Rightarrow> string" where
  "cstr buf = takeWhile (\<lambda>c. c \<noteq> NUL) buf"

definition strlen :: "string \<Rightarrow> nat" where
  "strlen buf = length (cstr buf)"

definition byte :: "char \<Rightarrow> int" where
  "byte c = int (of_char c)"

fun strcmp :: "string \<Rightarrow> string \<Rightarrow> int" where
  "strcmp [] [] = 0"
| "strcmp [] (y # ys) = - byte y"
| "strcmp (x # xs) [] = byte x"
| "strcmp (x # xs) (y # ys) =
     (if x \<noteq> y then byte x - byte y else if x = NUL then 0 else strcmp xs ys)"

subsection \<open>Entries, lists and the heap\<close>

definition DIR_READ_BLOCKS :: nat where
  "DIR_READ_BLOCKS = 10"

definition DLIST_GROW_SIZE :: nat where
  "DLIST_GROW_SIZE = 128"

datatype DirEntryType = ENTRY_FILE | ENTRY_DIRECTORY

text \<open>The values of the enum, as \<^verbatim>\<open>dlistCompare\<close> subtracts them.\<close>

fun typeVal :: "DirEntryType \<Rightarrow> int" where
  "typeVal ENTRY_FILE = 0"
| "typeVal ENTRY_DIRECTORY = 1"

text \<open>
  Pointers are addresses, \<open>0\<close> is \<^verbatim>\<open>NULL\<close>. A field of a block that was allocated and
  never written is indeterminate: \<open>None\<close>.
\<close>

type_synonym addr = nat

record DirEntry =
  type :: "DirEntryType option"
  name :: "addr option"

definition indet :: DirEntry where
  "indet = \<lparr>type = None, name = None\<rparr>"

text \<open>
  \<open>entries\<close> is the flexible array member: its length is the number of slots the block
  was allocated with. The counters are \<^verbatim>\<open>u32\<close> in the source; a list of \<open>2 ^ 32\<close> entries
  does not fit the address space, so they are natural numbers here.
\<close>

record DirList =
  capacity :: nat
  size_dl :: nat
  entries :: "DirEntry list"

datatype obj = Blank | Str string | Fis | DList DirList

text \<open>
  Modelled from the spec: the FCRAM allocator (arm11/allocator/fcram.c) is not among the
  sources. The spec says only that any allocation may be denied. Each request is
  answered by the next element of a script carried in the heap: \<open>Deny\<close> returns
  \<^verbatim>\<open>NULL\<close>, \<open>Grant g\<close> returns a fresh address whose block holds indeterminate data,
  \<open>g\<close> being what a read of an unwritten counter of the block finds. An exhausted script
  denies. Addresses are never handed out twice, so a pointer to a freed block stays
  recognisable.
\<close>

datatype grant = Deny | Grant nat

record heap =
  objs :: "addr \<Rightarrow> obj option"
  brk :: addr
  grants :: "grant list"

datatype fault = NullDeref | BadAccess | BadFree

definition fcramAlloc :: "(nat \<Rightarrow> obj) \<Rightarrow> heap \<Rightarrow> addr \<times> heap" where
  "fcramAlloc fresh h =
     (case grants h of
        [] \<Rightarrow> (0, h)
      | Deny # gs \<Rightarrow> (0, h\<lparr>grants := gs\<rparr>)
      | Grant g # gs \<Rightarrow>
          (let p = Suc (brk h)
           in (p, h\<lparr>objs := (objs h)(p \<mapsto> fresh g), brk := p, grants := gs\<rparr>)))"

text \<open>
  Modelled from the spec: \<^verbatim>\<open>fcramFree\<close>, of the same allocator. Freeing \<^verbatim>\<open>NULL\<close> does
  nothing, as with \<^verbatim>\<open>free\<close>; freeing an address that holds no live block is a fault.
\<close>

definition fcramFree :: "addr \<Rightarrow> heap \<Rightarrow> fault + heap" where
  "fcramFree p h =
     (if p = 0 then Inr h
      else (case objs h p of
              None \<Rightarrow> Inl BadFree
            | Some _ \<Rightarrow> Inr (h\<lparr>objs := (objs h)(p := None)\<rparr>)))"

text \<open>Reading \<^verbatim>\<open>dlist->...\<close>: the pointer must hold a live list block.\<close>

definition derefList :: "heap \<Rightarrow> addr \<Rightarrow> fault + DirList" where
  "derefList h p =
     (if p = 0 then Inl NullDeref
      else (case objs h p of Some (DList dl) \<Rightarrow> Inr dl | _ \<Rightarrow> Inl BadAccess))"

text \<open>The addresses that hold a live block, in ascending order.\<close>

definition live :: "heap \<Rightarrow> addr list" where
  "live h = filter (\<lambda>a. objs h a \<noteq> None) [1..<Suc (brk h)]"

text \<open>A block as \<^verbatim>\<open>fcramAlloc\<close> returns it for a list of \<open>n\<close> slots.\<close>

definition rawList :: "nat \<Rightarrow> nat \<Rightarrow> obj" where
  "rawList n g = DList \<lparr>capacity = g, size_dl = g, entries = replicate n indet\<rparr>"

text \<open>Lines 53-61.\<close>

definition dlistNew :: "heap \<Rightarrow> addr \<times> heap" where
  "dlistNew h =
     (let (dlist, h1) = fcramAlloc (rawList DLIST_GROW_SIZE) h
      in if dlist = 0 then (0, h1)
         else (case derefList h1 dlist of
                 Inl _ \<Rightarrow> (0, h1)
               | Inr dl \<Rightarrow>
                   (dlist, h1\<lparr>objs := (objs h1)(dlist \<mapsto>
                      DList (dl\<lparr>capacity := DLIST_GROW_SIZE, size_dl := 0\<rparr>))\<rparr>)))"

text \<open>
  Lines 63-70. The loop frees \<^verbatim>\<open>entries[i].name\<close> for \<open>i < size\<close>; a read beyond the
  block or of a pointer never written is a fault.
\<close>

fun freeNames :: "DirEntry list \<Rightarrow> heap \<Rightarrow> fault + heap" where
  "freeNames [] h = Inr h"
| "freeNames (e # es) h =
     (case name e of
        None \<Rightarrow> Inl BadAccess
      | Some p \<Rightarrow> (case fcramFree p h of Inl f \<Rightarrow> Inl f | Inr h1 \<Rightarrow> freeNames es h1))"

definition dlistFree :: "addr \<Rightarrow> heap \<Rightarrow> fault + heap" where
  "dlistFree dlist h =
     (case derefList h dlist of
        Inl f \<Rightarrow> Inl f
      | Inr dl \<Rightarrow>
          if size_dl dl > length (entries dl) then Inl BadAccess
          else (case freeNames (take (size_dl dl) (entries dl)) h of
                  Inl f \<Rightarrow> Inl f
                | Inr h1 \<Rightarrow> fcramFree dlist h1))"

text \<open>
  Lines 72-85. The new block's \<^verbatim>\<open>capacity\<close> and the first \<^verbatim>\<open>size\<close> entries are written;
  its \<^verbatim>\<open>size\<close> is not.
\<close>

definition dlistGrow :: "addr \<Rightarrow> heap \<Rightarrow> fault + addr \<times> heap" where
  "dlistGrow dlist h =
     (case derefList h dlist of
        Inl f \<Rightarrow> Inl f
      | Inr dl \<Rightarrow>
          (let newCapacity = capacity dl + DLIST_GROW_SIZE;
               (newList, h1) = fcramAlloc (rawList newCapacity) h
           in if newList = 0
              then (case fcramFree dlist h1 of Inl f \<Rightarrow> Inl f | Inr h2 \<Rightarrow> Inr (0, h2))
              else (case derefList h1 newList of
                      Inl f \<Rightarrow> Inl f
                    | Inr nl \<Rightarrow>
                        if size_dl dl > length (entries dl) \<or> size_dl dl > length (entries nl)
                        then Inl BadAccess
                        else (let nl1 = nl\<lparr>capacity := newCapacity,
                                    entries := take (size_dl dl) (entries dl)
                                               @ drop (size_dl dl) (entries nl)\<rparr>;
                                  h2 = h1\<lparr>objs := (objs h1)(newList \<mapsto> DList nl1)\<rparr>
                              in (case fcramFree dlist h2 of
                                    Inl f \<Rightarrow> Inl f
                                  | Inr h3 \<Rightarrow> Inr (newList, h3))))))"

subsection \<open>The directory read service\<close>

datatype Result = RES_OK | RES_INVALID_ARG | RES_OUT_OF_MEM | RES_FS nat

text \<open>
  \<^verbatim>\<open>FILINFO\<close> and \<^verbatim>\<open>AM_DIR\<close> are FatFs's (ff.h, not among the sources): the attribute
  byte, the directory bit in it, and the name buffer.
\<close>

record FILINFO =
  fattrib :: "8 word"
  fname :: string

definition AM_DIR :: "8 word" where
  "AM_DIR = 0x10"

text \<open>
  Modelled from the spec: \<^verbatim>\<open>fOpenDir\<close> and \<^verbatim>\<open>fReadDir\<close> (fs.c) are not among the
  sources. The spec describes a read service that delivers the directory in bounded
  batches and may fail. A directory is what opening it returns and the script of what
  the successive reads return: a result code and the entries on offer, of which a read
  takes at most the number asked for. Once the script is used up a read returns
  \<^verbatim>\<open>RES_OK\<close> with no entries, the end of the directory.
\<close>

type_synonym reads = "(Result \<times> FILINFO list) list"

type_synonym fs = "string \<Rightarrow> Result \<times> reads"

definition fOpenDir :: "fs \<Rightarrow> string \<Rightarrow> Result \<times> reads" where
  "fOpenDir fsys path = fsys path"

definition fReadDir :: "reads \<Rightarrow> nat \<Rightarrow> (Result \<times> FILINFO list) \<times> reads" where
  "fReadDir dh num =
     (case dh of
        [] \<Rightarrow> ((RES_OK, []), [])
      | r # rest \<Rightarrow> ((fst r, take num (snd r)), rest))"

subsection \<open>scanDir\<close>

definition entTypeOf :: "FILINFO \<Rightarrow> DirEntryType" where
  "entTypeOf fi = (if fattrib fi AND AM_DIR \<noteq> 0 then ENTRY_DIRECTORY else ENTRY_FILE)"

text \<open>
  Lines 131-138: the test under which the loop skips an entry. The third disjunct is
  reached only for a name longer than the filter, so \<^verbatim>\<open>fname[0]\<close> is its first byte.
\<close>

definition skipEntry :: "string \<Rightarrow> FILINFO \<Rightarrow> bool" where
  "skipEntry flt fi =
     (let entType = entTypeOf fi;
          nameLen = strlen (fname fi);
          filterLen = strlen flt
      in entType = ENTRY_FILE \<and>
         (nameLen \<le> filterLen
          \<or> strcmp flt (drop (nameLen - filterLen) (fname fi)) \<noteq> 0
          \<or> take 1 (fname fi) = ''.''))"

text \<open>Writes through \<^verbatim>\<open>dList->entries[i]\<close> and \<^verbatim>\<open>dList->size\<close>.\<close>

definition setEntry :: "heap \<Rightarrow> addr \<Rightarrow> nat \<Rightarrow> (DirEntry \<Rightarrow> DirEntry) \<Rightarrow> fault + heap" where
  "setEntry h d i f =
     (case derefList h d of
        Inl e \<Rightarrow> Inl e
      | Inr dl \<Rightarrow>
          if i < length (entries dl)
          then Inr (h\<lparr>objs := (objs h)(d \<mapsto>
                 DList (dl\<lparr>entries := (entries dl)[i := f (entries dl ! i)]\<rparr>))\<rparr>)
          else Inl BadAccess)"

definition setSize :: "heap \<Rightarrow> addr \<Rightarrow> nat \<Rightarrow> fault + heap" where
  "setSize h d n =
     (case derefList h d of
        Inl e \<Rightarrow> Inl e
      | Inr dl \<Rightarrow> Inr (h\<lparr>objs := (objs h)(d \<mapsto> DList (dl\<lparr>size_dl := n\<rparr>))\<rparr>))"

text \<open>
  How control leaves a piece of the scan: by \<^verbatim>\<open>goto bail\<close>, with the result, the heap
  and the list pointer at that moment, or onwards with the piece's outcome.
\<close>

datatype 'a flow = Bail Result heap addr | Next 'a

text \<open>Lines 139-147: the list is grown when it is full; \<^verbatim>\<open>NULL\<close> when that fails.\<close>

definition growIfFull :: "heap \<Rightarrow> addr \<Rightarrow> fault + addr \<times> heap" where
  "growIfFull h dList =
     (case derefList h dList of
        Inl f \<Rightarrow> Inl f
      | Inr dl \<Rightarrow> if size_dl dl = capacity dl then dlistGrow dList h else Inr (dList, h))"

text \<open>
  Lines 148-156: the name is allocated, its pointer stored in the entry before it is
  tested, the name copied (\<^verbatim>\<open>safeStrcpy\<close> of util.c copies the C string), the kind
  stored and the size set.
\<close>

definition storeEntry ::
  "FILINFO \<Rightarrow> heap \<Rightarrow> addr \<Rightarrow> nat \<Rightarrow> fault + (heap \<times> addr \<times> nat) flow" where
  "storeEntry fi h dList numEntries =
     (let (p, h2) = fcramAlloc (\<lambda>_. Blank) h
      in (case setEntry h2 dList numEntries (\<lambda>e. e\<lparr>name := Some p\<rparr>) of
            Inl f \<Rightarrow> Inl f
          | Inr h3 \<Rightarrow>
              if p = 0 then Inr (Bail RES_OUT_OF_MEM h3 dList)
              else
               (let h4 = h3\<lparr>objs := (objs h3)(p \<mapsto> Str (cstr (fname fi)))\<rparr>
                in (case setEntry h4 dList numEntries
                           (\<lambda>e. e\<lparr>type := Some (entTypeOf fi)\<rparr>) of
                      Inl f \<Rightarrow> Inl f
                    | Inr h5 \<Rightarrow>
                       (case setSize h5 dList (Suc numEntries) of
                          Inl f \<Rightarrow> Inl f
                        | Inr h6 \<Rightarrow> Inr (Next (h6, dList, Suc numEntries)))))))"

text \<open>Lines 131-156: the body of the loop over one batch.\<close>

definition addEntry ::
  "string \<Rightarrow> FILINFO \<Rightarrow> heap \<Rightarrow> addr \<Rightarrow> nat \<Rightarrow> fault + (heap \<times> addr \<times> nat) flow" where
  "addEntry flt fi h dList numEntries =
     (if skipEntry flt fi then Inr (Next (h, dList, numEntries))
      else (case growIfFull h dList of
              Inl f \<Rightarrow> Inl f
            | Inr (dList1, h1) \<Rightarrow>
                if dList1 = 0 then Inr (Bail RES_OUT_OF_MEM h1 dList1)
                else storeEntry fi h1 dList1 numEntries))"

text \<open>Lines 129-157: the loop over the entries of one batch.\<close>

fun scanBatch ::
  "string \<Rightarrow> FILINFO list \<Rightarrow> heap \<Rightarrow> addr \<Rightarrow> nat \<Rightarrow> fault + (heap \<times> addr \<times> nat) flow" where
  "scanBatch flt [] h dList numEntries = Inr (Next (h, dList, numEntries))"
| "scanBatch flt (fi # fis) h dList numEntries =
     (case addEntry flt fi h dList numEntries of
        Inl f \<Rightarrow> Inl f
      | Inr (Bail res h1 dList1) \<Rightarrow> Inr (Bail res h1 dList1)
      | Inr (Next (h1, dList1, n1)) \<Rightarrow> scanBatch flt fis h1 dList1 n1)"

text \<open>
  Lines 125-158: the read loop, left with the last result of \<^verbatim>\<open>fReadDir\<close>. The
  recursion is on the script of reads still to come.
\<close>

fun scanLoop ::
  "string \<Rightarrow> reads \<Rightarrow> heap \<Rightarrow> addr \<Rightarrow> nat \<Rightarrow> fault + (Result \<times> heap \<times> addr) flow" where
  "scanLoop flt [] h dList numEntries =
     Inr (Next (fst (fst (fReadDir [] DIR_READ_BLOCKS)), h, dList))"
| "scanLoop flt (r # rest) h dList numEntries =
     (let res = fst (fst (fReadDir (r # rest) DIR_READ_BLOCKS));
          batch = snd (fst (fReadDir (r # rest) DIR_READ_BLOCKS))
      in if res \<noteq> RES_OK then Inr (Next (res, h, dList))
         else (case scanBatch flt batch h dList numEntries of
                 Inl f \<Rightarrow> Inl f
               | Inr (Bail res1 h1 dList1) \<Rightarrow> Inr (Bail res1 h1 dList1)
               | Inr (Next (h1, dList1, n1)) \<Rightarrow>
                   if batch = [] then Inr (Next (res, h1, dList1))
                   else scanLoop flt rest h1 dList1 n1))"

text \<open>
  Lines 87-107, on entries whose name pointer has been followed: the kind and the
  string the name points to.
\<close>

definition dlistCompare :: "DirEntryType \<times> string \<Rightarrow> DirEntryType \<times> string \<Rightarrow> int" where
  "dlistCompare entA entB =
     (if fst entA \<noteq> fst entB then typeVal (fst entB) - typeVal (fst entA)
      else strcmp (snd entA) (snd entB))"

text \<open>
  \<^verbatim>\<open>qsort\<close> is the C library's: it leaves the array in ascending order of the
  comparison function. Entries that compare equal have the same kind and the same
  name, so every sorting algorithm returns the same kinds and names; insertion stands
  for all of them.
\<close>

fun qsort_insert :: "('a \<Rightarrow> 'a \<Rightarrow> int) \<Rightarrow> 'a \<Rightarrow> 'a list \<Rightarrow> 'a list" where
  "qsort_insert cmp x [] = [x]"
| "qsort_insert cmp x (y # ys) =
     (if cmp x y \<le> 0 then x # y # ys else y # qsort_insert cmp x ys)"

fun qsort :: "('a \<Rightarrow> 'a \<Rightarrow> int) \<Rightarrow> 'a list \<Rightarrow> 'a list" where
  "qsort cmp [] = []"
| "qsort cmp (x # xs) = qsort_insert cmp x (qsort cmp xs)"

text \<open>An entry with its name pointer followed; \<open>None\<close> where the read would be a fault.\<close>

definition resolve :: "heap \<Rightarrow> DirEntry \<Rightarrow> ((DirEntryType \<times> string) \<times> addr) option" where
  "resolve h e =
     (case (type e, name e) of
        (Some t, Some p) \<Rightarrow> (case objs h p of Some (Str s) \<Rightarrow> Some ((t, s), p) | _ \<Rightarrow> None)
      | _ \<Rightarrow> None)"

text \<open>Line 165: the first \<^verbatim>\<open>size\<close> entries of the list are sorted in place.\<close>

definition qsortList :: "addr \<Rightarrow> heap \<Rightarrow> fault + heap" where
  "qsortList d h =
     (case derefList h d of
        Inl f \<Rightarrow> Inl f
      | Inr dl \<Rightarrow>
          if size_dl dl > length (entries dl) then Inl BadAccess
          else (case those (map (resolve h) (take (size_dl dl) (entries dl))) of
                  None \<Rightarrow> Inl BadAccess
                | Some ks \<Rightarrow>
                    Inr (h\<lparr>objs := (objs h)(d \<mapsto> DList (dl\<lparr>entries :=
                      map (\<lambda>k. \<lparr>type = Some (fst (fst k)), name = Some (snd k)\<rparr>)
                          (qsort (\<lambda>a b. dlistCompare (fst a) (fst b)) ks)
                      @ drop (size_dl dl) (entries dl)\<rparr>))\<rparr>)))"

text \<open>
  Lines 109-175. The slot \<^verbatim>\<open>dListOut\<close> is \<open>None\<close> for a \<^verbatim>\<open>NULL\<close> pointer and otherwise
  holds the list pointer stored in it; the result carries the slot's content on return.
  Line 112 names \<^verbatim>\<open>*dlistOut\<close>, an identifier the file does not declare; it is read as
  the parameter \<^verbatim>\<open>*dListOut\<close>, the list its comment says it frees.
\<close>

definition scanDir ::
  "string \<Rightarrow> string \<Rightarrow> addr option \<Rightarrow> fs \<Rightarrow> heap \<Rightarrow> fault + Result \<times> addr option \<times> heap" where
  "scanDir path flt dListOut fsys h =
     (case dListOut of
        None \<Rightarrow> Inr (RES_INVALID_ARG, None, h)
      | Some old \<Rightarrow>
         (case (if old \<noteq> 0 then fcramFree old h else Inr h) of
            Inl f \<Rightarrow> Inl f
          | Inr h0 \<Rightarrow>
             (let (fis, h1) = fcramAlloc (\<lambda>_. Fis) h0
              in if fis = 0 then Inr (RES_OUT_OF_MEM, Some old, h1)
                 else
                  (let (dList, h2) = dlistNew h1
                   in if dList = 0 then Inr (RES_OUT_OF_MEM, Some old, h2)
                      else
                       (case (if fst (fOpenDir fsys path) = RES_OK
                              then scanLoop flt (snd (fOpenDir fsys path)) h2 dList 0
                              else Inr (Next (fst (fOpenDir fsys path), h2, dList))) of
                          Inl f \<Rightarrow> Inl f
                        | Inr (Next (res, h3, d)) \<Rightarrow>
                           (case fcramFree fis h3 of
                              Inl f \<Rightarrow> Inl f
                            | Inr h4 \<Rightarrow>
                               (case qsortList d h4 of
                                  Inl f \<Rightarrow> Inl f
                                | Inr h5 \<Rightarrow> Inr (res, Some d, h5)))
                        | Inr (Bail res h3 d) \<Rightarrow>
                           (case fcramFree fis h3 of
                              Inl f \<Rightarrow> Inl f
                            | Inr h4 \<Rightarrow>
                               (case dlistFree d h4 of
                                  Inl f \<Rightarrow> Inl f
                                | Inr h5 \<Rightarrow> Inr (res, Some old, h5))))))))"

text \<open>The list a pointer leads to, as kinds and names; \<open>None\<close> where a read would fault.\<close>

definition listView :: "heap \<Rightarrow> addr \<Rightarrow> (DirEntryType \<times> string) list option" where
  "listView h d =
     (case derefList h d of
        Inl f \<Rightarrow> None
      | Inr dl \<Rightarrow>
          if size_dl dl > length (entries dl) then None
          else map_option (map fst) (those (map (resolve h) (take (size_dl dl) (entries dl)))))"

subsection \<open>browseFiles: the paths\<close>

text \<open>
  Lines 192-214. \<open>None\<close> is a \<^verbatim>\<open>NULL\<close> argument; a path is the C string its buffer holds
  and \<^verbatim>\<open>*srcSize\<close> the size of that buffer. \<^verbatim>\<open>realloc\<close> is the C library's: whether it
  succeeds is the argument \<open>reallocOk\<close>. The result is the new path with the buffer
  size, or \<open>None\<close> for the \<^verbatim>\<open>NULL\<close> the function returns. \<^verbatim>\<open>src[srcLen - 1]\<close> of an
  empty path reads before the buffer.
\<close>

definition pathAppend ::
  "string option \<Rightarrow> nat option \<Rightarrow> string option \<Rightarrow> bool \<Rightarrow> fault + (string \<times> nat) option" where
  "pathAppend src srcSize dst reallocOk =
     (case (src, srcSize, dst) of
        (Some s, Some cap, Some d) \<Rightarrow>
          (let srcLen = length s; dstLen = length d
           in if srcLen = 0 then Inl BadAccess
              else (let addSlash = (s ! (srcLen - 1) \<noteq> CHR ''/'');
                        newLen = srcLen + dstLen + (if addSlash then 2 else 1)
                    in if newLen \<ge> cap \<and> \<not> reallocOk then Inr None
                       else Inr (Some ((if addSlash then s @ ''/'' else s) @ d,
                                       if newLen \<ge> cap then newLen else cap))))
      | _ \<Rightarrow> Inr None)"

text \<open>
  Line 320: \<^verbatim>\<open>while(*--tmpPathPtr != '/');\<close> started at index \<open>i\<close>. It ends at the last
  separator below \<open>i\<close>; with none it runs off the front of the buffer.
\<close>

fun lastSlash :: "string \<Rightarrow> nat \<Rightarrow> nat option" where
  "lastSlash s 0 = None"
| "lastSlash s (Suc i) = (if s ! i = CHR ''/'' then Some i else lastSlash s i)"

text \<open>
  Lines 319-322, the handler of \<^verbatim>\<open>KEY_B\<close>: the path is cut at the last separator, or
  behind it when a colon stands before it. A separator at index \<open>0\<close> makes line 321 read
  before the buffer.
\<close>

definition truncateToParent :: "string \<Rightarrow> fault + string" where
  "truncateToParent curDir =
     (case lastSlash curDir (length curDir) of
        None \<Rightarrow> Inl BadAccess
      | Some i \<Rightarrow>
          if i = 0 then Inl BadAccess
          else Inr (take (if curDir ! (i - 1) = CHR '':'' then Suc i else i) curDir))"

text \<open>
  Lines 325 and 332-336: the rescan of the loop and, when it fails, the release of the
  list at \<^verbatim>\<open>end\<close>.
\<close>

definition rescan :: "string \<Rightarrow> addr \<Rightarrow> fs \<Rightarrow> heap \<Rightarrow> fault + Result \<times> addr \<times> heap" where
  "rescan curDir dList fsys h =
     (case scanDir curDir ''.gba'' (Some dList) fsys h of
        Inl f \<Rightarrow> Inl f
      | Inr (res, out, h1) \<Rightarrow>
          (let dList1 = (case out of None \<Rightarrow> dList | Some d \<Rightarrow> d)
           in if res \<noteq> RES_OK
              then (case (if dList1 \<noteq> 0 then dlistFree dList1 h1 else Inr h1) of
                      Inl f \<Rightarrow> Inl f
                    | Inr h2 \<Rightarrow> Inr (res, dList1, h2))
              else Inr (res, dList1, h1)))"

subsection \<open>The properties, in the words of the specification\<close>

text \<open>Byte-wise lexicographic order of names.\<close>

fun bytesLe :: "string \<Rightarrow> string \<Rightarrow> bool" where
  "bytesLe [] ys = True"
| "bytesLe (x # xs) [] = False"
| "bytesLe (x # xs) (y # ys) = (byte x < byte y \<or> (x = y \<and> bytesLe xs ys))"

definition dirsPrecedeFiles :: "(DirEntryType \<times> string) list \<Rightarrow> bool" where
  "dirsPrecedeFiles es =
     (\<forall>i j. i < length es \<and> j < length es \<and> fst (es ! i) = ENTRY_DIRECTORY
            \<and> fst (es ! j) = ENTRY_FILE \<longrightarrow> i < j)"

definition namesAscend :: "(DirEntryType \<times> string) list \<Rightarrow> bool" where
  "namesAscend es =
     (\<forall>i. Suc i < length es \<and> fst (es ! i) = fst (es ! Suc i)
          \<longrightarrow> bytesLe (snd (es ! i)) (snd (es ! Suc i)))"

text \<open>The admission rule: \<open>f\<close> is the suffix filter, \<open>nm\<close> the name of the entry.\<close>

definition admitted :: "string \<Rightarrow> DirEntryType \<Rightarrow> string \<Rightarrow> bool" where
  "admitted f kind nm =
     (kind = ENTRY_DIRECTORY
      \<or> (length nm > length f \<and> drop (length nm - length f) nm = f \<and> take 1 nm \<noteq> ''.''))"

text \<open>The kind and name of a directory entry as the scan stores them.\<close>

definition entryOf :: "FILINFO \<Rightarrow> DirEntryType \<times> string" where
  "entryOf fi = (entTypeOf fi, cstr (fname fi))"

text \<open>The entries the read loop is handed before it ends.\<close>

fun entriesRead :: "reads \<Rightarrow> FILINFO list" where
  "entriesRead [] = []"
| "entriesRead ((res, offer) # rest) =
     (if res \<noteq> RES_OK \<or> take DIR_READ_BLOCKS offer = [] then []
      else take DIR_READ_BLOCKS offer @ entriesRead rest)"

text \<open>What a caller can observe of a call: the result, the slot and the live blocks.\<close>

definition scanOutcome ::
  "fault + Result \<times> addr option \<times> heap \<Rightarrow> fault + Result \<times> addr option \<times> addr list" where
  "scanOutcome r = (case r of Inl f \<Rightarrow> Inl f | Inr (res, out, h) \<Rightarrow> Inr (res, out, live h))"

subsection \<open>The state of a scan between two entries\<close>

definition mkEntry :: "DirEntryType \<times> string \<Rightarrow> addr \<Rightarrow> DirEntry" where
  "mkEntry k p = \<lparr>type = Some (fst k), name = Some p\<rparr>"

definition sizeOf :: "heap \<Rightarrow> addr \<Rightarrow> nat" where
  "sizeOf h d = (case objs h d of Some (DList dl) \<Rightarrow> size_dl dl | _ \<Rightarrow> 0)"

definition capOf :: "heap \<Rightarrow> addr \<Rightarrow> nat" where
  "capOf h d = (case objs h d of Some (DList dl) \<Rightarrow> capacity dl | _ \<Rightarrow> 0)"

text \<open>The read buffer \<open>fis\<close> is live.\<close>

definition bufLive :: "addr \<Rightarrow> heap \<Rightarrow> bool" where
  "bufLive fis h = (fis \<noteq> 0 \<and> fis \<le> brk h \<and> objs h fis = Some Fis)"

text \<open>
  The list at \<open>d\<close> holds the entries \<open>acc\<close> (kinds and names) in its first slots, and
  their names live in distinct blocks \<open>ps\<close>.
\<close>

definition listShape ::
  "heap \<Rightarrow> addr \<Rightarrow> (DirEntryType \<times> string) list \<Rightarrow> addr list \<Rightarrow> bool" where
  "listShape h d acc ps =
     (d \<noteq> 0 \<and> d \<le> brk h
      \<and> length ps = length acc \<and> distinct ps
      \<and> (\<exists>dl. objs h d = Some (DList dl)
               \<and> length acc \<le> capacity dl \<and> length (entries dl) = capacity dl
               \<and> take (length acc) (entries dl) = map2 mkEntry acc ps)
      \<and> (\<forall>i<length acc. ps ! i \<noteq> 0 \<and> ps ! i \<le> brk h
                          \<and> objs h (ps ! i) = Some (Str (snd (acc ! i)))))"

definition scanInv ::
  "addr \<Rightarrow> heap \<Rightarrow> addr \<Rightarrow> (DirEntryType \<times> string) list \<Rightarrow> addr list \<Rightarrow> bool" where
  "scanInv fis h d acc ps =
     (bufLive fis h \<and> listShape h d acc ps \<and> sizeOf h d = length acc)"

text \<open>The entries of a batch that the loop does not skip, as the scan stores them.\<close>

definition kept :: "string \<Rightarrow> FILINFO list \<Rightarrow> (DirEntryType \<times> string) list" where
  "kept flt fis = map entryOf (filter (\<lambda>fi. \<not> skipEntry flt fi) fis)"

text \<open>The list a call leaves in the slot, as kinds and names.\<close>

definition scanView ::
  "fault + Result \<times> addr option \<times> heap \<Rightarrow> (DirEntryType \<times> string) list option" where
  "scanView r = (case r of Inr (res, Some d, h) \<Rightarrow> listView h d | _ \<Rightarrow> None)"

text \<open>A heap with nothing allocated yet and a given script of the allocator.\<close>

definition heapOf :: "grant list \<Rightarrow> heap" where
  "heapOf gs = \<lparr>objs = (\<lambda>_. None), brk = 0, grants = gs\<rparr>"

text \<open>
  A small file system for the examples: every path holds two ROMs, a directory, a
  hidden ROM, a text file and a file named like the filter, read in two batches.
\<close>

definition romDir :: fs where
  "romDir = (\<lambda>path. (RES_OK,
     [(RES_OK, [\<lparr>fattrib = 0x20, fname = ''b.gba''\<rparr>, \<lparr>fattrib = 0x10, fname = ''saves''\<rparr>,
                \<lparr>fattrib = 0x20, fname = ''.x.gba''\<rparr>]),
      (RES_OK, [\<lparr>fattrib = 0x20, fname = ''a.gba''\<rparr>, \<lparr>fattrib = 0x20, fname = ''c.txt''\<rparr>,
                \<lparr>fattrib = 0x20, fname = ''.gba''\<rparr>])]))"

text \<open>
  A directory of \<open>129\<close> subdirectories, delivered by twelve reads of ten entries and
  one of nine.
\<close>

definition bigDir :: fs where
  "bigDir = (\<lambda>path. (RES_OK,
     replicate 12 (RES_OK, replicate DIR_READ_BLOCKS \<lparr>fattrib = 0x10, fname = ''d''\<rparr>)
     @ [(RES_OK, replicate 9 \<lparr>fattrib = 0x10, fname = ''d''\<rparr>)]))"

text \<open>A kind with a name that holds no NUL byte, as every C string does.\<close>

definition nulFree :: "DirEntryType \<times> string \<Rightarrow> bool" where
  "nulFree k = (NUL \<notin> set (snd k))"

section \<open>Cursor and window: proofs\<close>

text \<open>A signed read of a 32-bit word, in terms of the unsigned one.\<close>

lemma sint32: "sint (x::32 word) = (if uint x < 2^31 then uint x else uint x - 2^32)"
proof -
  have b: "0 \<le> uint x" "uint x < 2^32" using uint_lt2p [of x] by simp_all
  have s: "sint x = (uint x + 2^31) mod 2^32 - 2^31"
    by (simp add: sint_uint signed_take_bit_eq_take_bit_shift take_bit_eq_mod)
  show ?thesis
  proof (cases "uint x < 2^31")
    case True
    then have "(uint x + 2^31) mod 2^32 = uint x + 2^31"
      using b by simp
    then show ?thesis using True s by simp
  next
    case False
    have "(uint x + 2^31) mod 2^32 = (uint x - 2^31 + 2^32) mod 2^32"
      by (simp add: add.commute)
    also have "\<dots> = (uint x - 2^31) mod 2^32" by (simp only: mod_add_self2)
    also have "\<dots> = uint x - 2^31" using False b by simp
    finally show ?thesis using False s by simp
  qed
qed

lemmas word_to_int =
  word_less_def word_le_def uint_plus_if' uint_sub_if' sint32 word_uint_eq_iff

lemmas nav_defs =
  navStep_def moveCursor_def wrapCursor_def scrollWindow_def SCREEN_ROWS_def Let_def

lemma wrapCursor_less: "0 < n \<Longrightarrow> wrapCursor n x < n"
proof -
  assume n: "0 < n"
  define xi ni where "xi = uint x" and "ni = uint n"
  have b: "0 \<le> xi" "xi < 2^32" "0 < ni" "ni < 2^32"
    using uint_lt2p [of x] uint_lt2p [of n] n by (simp_all add: xi_def ni_def word_less_def)
  show ?thesis
    using b
    by (auto simp add: wrapCursor_def Let_def word_to_int
        xi_def [symmetric] ni_def [symmetric] split: if_splits)
qed

lemma scrollWindow_int:
  assumes "uint c + 24 < 2^32"
  shows "uint (scrollWindow c w) =
           (if uint c < uint w then uint c
            else if uint w + uint SCREEN_ROWS \<le> uint c then uint c - (uint SCREEN_ROWS - 1)
            else uint w)"
proof -
  define ci wi where "ci = uint c" and "wi = uint w"
  have b: "0 \<le> ci" "ci < 2^32" "0 \<le> wi" "wi < 2^32"
    using uint_lt2p [of c] uint_lt2p [of w] by (simp_all add: ci_def wi_def)
  have a: "ci + 24 < 2^32"
    using assms by (simp_all add: ci_def)
  show ?thesis
    using a b
    by (auto simp add: scrollWindow_def SCREEN_ROWS_def Let_def word_to_int
        ci_def [symmetric] wi_def [symmetric] split: if_splits)
qed

text \<open>
  C3, as the claim states it, fails: from cursor \<open>0\<close> in a list of \<open>24\<close> entries a page
  forward gives \<open>24\<close>, which line 256 lets pass (\<open>24 > 24\<close> is false) and the wrap of
  line 268 turns into \<open>0\<close>, not into \<open>min (0 + 24) 23 = 23\<close>.
\<close>

theorem C3_page_forward_counterexample:
  "uint (fst (navStep {KEY_DRIGHT} 24 (0, 0)))
     \<noteq> min (uint (0::u32) + uint SCREEN_ROWS) (uint (24::u32) - 1)"
  by (simp add: nav_defs)

text \<open>
  C3, amended: for a list of size \<open>n > 0\<close> that a signed cursor can index and a cursor
  \<open>c\<close> in \<open>[0, n)\<close>, the cursor after a page forward and the wrap is \<open>n - 1\<close> when
  \<open>c + pageSize > n\<close>, is \<open>c + pageSize\<close> when \<open>c + pageSize < n\<close>, and is \<open>0\<close> when
  \<open>c + pageSize = n\<close>: the step to exactly one past the last index is not clamped, it
  wraps to the start.
\<close>

theorem C3_page_forward:
  assumes "0 < n" and "uint n < 2^31" and "c < n"
  shows "uint (fst (navStep {KEY_DRIGHT} n (c, w))) =
           (if uint c + uint SCREEN_ROWS = uint n then 0
            else min (uint c + uint SCREEN_ROWS) (uint n - 1))"
proof -
  define ci ni where "ci = uint c" and "ni = uint n"
  have b: "0 \<le> ci" "ci < 2^32" "0 \<le> ni" "ni < 2^32"
    using uint_lt2p [of c] uint_lt2p [of n] by (simp_all add: ci_def ni_def)
  have a: "0 < ni" "ni < 2^31" "ci < ni"
    using assms by (simp_all add: ci_def ni_def word_less_def)
  show ?thesis
    using a b
    by (auto simp add: navStep_def moveCursor_def wrapCursor_def SCREEN_ROWS_def Let_def
        word_to_int ci_def [symmetric] ni_def [symmetric] split: if_splits)
qed

theorem C3_page_forward_witness:
  "(0::u32) < 100 \<and> uint (100::u32) < 2^31 \<and> (90::u32) < 100
   \<and> uint (fst (navStep {KEY_DRIGHT} 100 (90, 67))) = 99
   \<and> uint (fst (navStep {KEY_DRIGHT} 100 (76, 67))) = 0
   \<and> uint (fst (navStep {KEY_DRIGHT} 100 (10, 0))) = 34"
  using C3_page_forward [of 100 90 67] C3_page_forward [of 100 76 67]
    C3_page_forward [of 100 10 0]
  by (simp add: SCREEN_ROWS_def)

text \<open>
  C4, as the claim states it, fails: from cursor \<open>5\<close> in a list of \<open>100\<close> entries a page
  backward gives \<open>-19\<close>, which line 261 sets to \<open>0\<close>, not to \<open>-1\<close>; the cursor after the
  wrap is \<open>0\<close>, not \<open>99\<close>.
\<close>

theorem C4_page_backward_counterexample:
  "sint (moveCursor {KEY_DLEFT} 100 5) \<noteq> max (uint (5::u32) - uint SCREEN_ROWS) (- 1)
   \<and> uint (fst (navStep {KEY_DLEFT} 100 (5, 0))) \<noteq> uint (100::u32) - 1"
  by (simp add: nav_defs)

text \<open>
  C4, amended: for a list of size \<open>n > 0\<close> that a signed cursor can index and a cursor
  \<open>c\<close> in \<open>[0, n)\<close>, a page backward sets the cursor before the wrap to \<open>c - pageSize\<close>
  when that is at least \<open>-1\<close> and to \<open>0\<close> when it is below \<open>-1\<close>. After the wrap the
  cursor is \<open>n - 1\<close> only for \<open>c - pageSize = -1\<close>; a page backward that moves further
  off the top lands on \<open>0\<close>.
\<close>

theorem C4_page_backward:
  assumes "0 < n" and "uint n < 2^31" and "c < n"
  shows "sint (moveCursor {KEY_DLEFT} n c) =
           (if uint c - uint SCREEN_ROWS < - 1 then 0 else uint c - uint SCREEN_ROWS)
         \<and> uint (fst (navStep {KEY_DLEFT} n (c, w))) =
           (if uint c - uint SCREEN_ROWS = - 1 then uint n - 1
            else if uint c - uint SCREEN_ROWS < - 1 then 0
            else uint c - uint SCREEN_ROWS)"
proof -
  define ci ni where "ci = uint c" and "ni = uint n"
  have b: "0 \<le> ci" "ci < 2^32" "0 \<le> ni" "ni < 2^32"
    using uint_lt2p [of c] uint_lt2p [of n] by (simp_all add: ci_def ni_def)
  have a: "0 < ni" "ni < 2^31" "ci < ni"
    using assms by (simp_all add: ci_def ni_def word_less_def)
  show ?thesis
    using a b
    by (auto simp add: navStep_def moveCursor_def wrapCursor_def SCREEN_ROWS_def Let_def
        word_to_int ci_def [symmetric] ni_def [symmetric] split: if_splits)
qed

theorem C4_page_backward_witness:
  "(0::u32) < 100 \<and> uint (100::u32) < 2^31 \<and> (23::u32) < 100
   \<and> sint (moveCursor {KEY_DLEFT} 100 23) = - 1
   \<and> uint (fst (navStep {KEY_DLEFT} 100 (23, 0))) = 99
   \<and> sint (moveCursor {KEY_DLEFT} 100 5) = 0
   \<and> uint (fst (navStep {KEY_DLEFT} 100 (5, 0))) = 0
   \<and> uint (fst (navStep {KEY_DLEFT} 100 (50, 40))) = 26"
  using C4_page_backward [of 100 23 0] C4_page_backward [of 100 5 0]
    C4_page_backward [of 100 50 40]
  by (simp add: SCREEN_ROWS_def)

text \<open>
  C7: for any keys pressed on a list of size \<open>n > 0\<close> (that a signed cursor can index),
  the pass of lines 249-279 ends with the cursor in the list and inside the window:
  \<open>windowStart \<le> cursor < windowStart + pageSize\<close>, whatever the cursor and window were
  before and whether or not the list fills a page. The new window start is the cursor
  when the cursor is below the old one, \<open>cursor - (pageSize - 1)\<close> when the cursor is at
  or beyond the old one plus \<open>pageSize\<close>, and the old one otherwise.
\<close>

theorem C7_window_invariant:
  assumes "0 < n" and "uint n < 2^31" and "navStep kDown n (c, w) = (c', w')"
  shows "0 \<le> sint c' \<and> sint c' < uint n
         \<and> uint w' \<le> sint c' \<and> sint c' < uint w' + uint SCREEN_ROWS
         \<and> uint w' = (if sint c' < uint w then sint c'
                      else if uint w + uint SCREEN_ROWS \<le> sint c'
                           then sint c' - (uint SCREEN_ROWS - 1)
                           else uint w)"
proof -
  have c': "c' = wrapCursor n (moveCursor kDown n c)" and w': "w' = scrollWindow c' w"
    using assms(3) by (auto simp add: navStep_def Let_def)
  have "c' < n" using assms(1) by (simp add: c' wrapCursor_less)
  then have lt: "uint c' < uint n" by (simp add: word_less_def)
  then have s: "sint c' = uint c'" using assms(2) by (simp add: sint32)
  have "uint c' + 24 < 2^32" using lt assms(2) by simp
  from scrollWindow_int [OF this, of w]
  have sc: "uint w' = (if uint c' < uint w then uint c'
                       else if uint w + uint SCREEN_ROWS \<le> uint c'
                            then uint c' - (uint SCREEN_ROWS - 1)
                            else uint w)"
    by (simp add: w')
  have "0 \<le> uint w" by simp
  then show ?thesis using lt sc unfolding s
    by (auto simp add: SCREEN_ROWS_def split: if_splits)
qed

theorem C7_window_invariant_witness:
  "(0::u32) < 100 \<and> uint (100::u32) < 2^31
   \<and> navStep {KEY_DDOWN} 100 (23, 0) = (24, 1)
   \<and> 0 \<le> sint (24::s32) \<and> sint (24::s32) < uint (100::u32)
   \<and> uint (1::u32) \<le> sint (24::s32) \<and> sint (24::s32) < uint (1::u32) + uint SCREEN_ROWS"
proof -
  have h: "navStep {KEY_DDOWN} 100 (23, 0) = (24, 1)" by (simp add: nav_defs)
  show ?thesis using C7_window_invariant [of 100 "{KEY_DDOWN}" 23 0 24 1] h by simp
qed

text \<open>
  C8: the wrap of lines 267-268 sends a cursor below \<open>0\<close> to \<open>n - 1\<close> and, in a list of
  size \<open>n > 0\<close>, a cursor at or beyond \<open>n\<close> to \<open>0\<close>, and leaves a cursor in \<open>[0, n)\<close> alone.
  With \<open>n = 5\<close>, a step up from \<open>0\<close> gives \<open>4\<close> and a step down from \<open>4\<close> gives \<open>0\<close>.
\<close>

theorem C8_cursor_wrap:
  "(sint x < 0 \<longrightarrow> wrapCursor n x = n - 1)
   \<and> (0 < n \<and> 0 \<le> sint y \<and> n \<le> y \<longrightarrow> wrapCursor n y = 0)
   \<and> (0 < n \<and> 0 \<le> sint z \<and> z < n \<longrightarrow> wrapCursor n z = z)
   \<and> fst (navStep {KEY_DUP} 5 (0, w)) = 4
   \<and> fst (navStep {KEY_DDOWN} 5 (4, w)) = 0"
proof -
  define xi yi zi ni where "xi = uint x" and "yi = uint y" and "zi = uint z" and "ni = uint n"
  have b: "0 \<le> xi" "xi < 2^32" "0 \<le> yi" "yi < 2^32" "0 \<le> zi" "zi < 2^32" "0 \<le> ni" "ni < 2^32"
    using uint_lt2p [of x] uint_lt2p [of y] uint_lt2p [of z] uint_lt2p [of n]
    by (simp_all add: xi_def yi_def zi_def ni_def)
  have 1: "sint x < 0 \<longrightarrow> wrapCursor n x = n - 1"
    using b
    by (auto simp add: wrapCursor_def Let_def word_to_int
        xi_def [symmetric] ni_def [symmetric] split: if_splits)
  have 2: "0 < n \<and> 0 \<le> sint y \<and> n \<le> y \<longrightarrow> wrapCursor n y = 0"
    using b
    by (auto simp add: wrapCursor_def Let_def word_to_int
        yi_def [symmetric] ni_def [symmetric] split: if_splits)
  have 3: "0 < n \<and> 0 \<le> sint z \<and> z < n \<longrightarrow> wrapCursor n z = z"
    using b
    by (auto simp add: wrapCursor_def Let_def word_to_int
        zi_def [symmetric] ni_def [symmetric] split: if_splits)
  have 4: "fst (navStep {KEY_DUP} 5 (0, w)) = 4" "fst (navStep {KEY_DDOWN} 5 (4, w)) = 0"
    by (simp_all add: navStep_def moveCursor_def wrapCursor_def Let_def)
  show ?thesis using 1 2 3 4 by blast
qed

theorem C8_cursor_wrap_witness:
  "sint (- 1 :: s32) < 0 \<and> wrapCursor 5 (- 1) = 4
   \<and> (0::u32) < 5 \<and> 0 \<le> sint (5::s32) \<and> (5::u32) \<le> 5 \<and> wrapCursor 5 5 = 0
   \<and> 0 \<le> sint (3::s32) \<and> (3::u32) < 5 \<and> wrapCursor 5 3 = 3"
  using C8_cursor_wrap [of "- 1" 5 5 3]
  by simp

section \<open>Paths: proofs\<close>

lemma lastSlash_Some:
  "lastSlash s n = Some i \<Longrightarrow> i < n \<and> s ! i = CHR ''/'' \<and> (\<forall>j. i < j \<and> j < n \<longrightarrow> s ! j \<noteq> CHR ''/'')"
proof (induction n)
  case 0
  then show ?case by simp
next
  case (Suc n)
  show ?case
  proof (cases "s ! n = CHR ''/''")
    case True
    with Suc.prems show ?thesis by auto
  next
    case False
    with Suc.prems have "lastSlash s n = Some i" by simp
    from Suc.IH [OF this] False show ?thesis
      by (auto simp: less_Suc_eq)
  qed
qed

lemma truncate_keeps_root:
  assumes "truncateToParent p = Inr r" and "Suc i < length p"
    and "p ! i = CHR '':''" and "p ! Suc i = CHR ''/''"
  shows "i + 2 \<le> length r \<and> take (i + 2) r = take (i + 2) p"
proof -
  from assms(1) obtain k where k: "lastSlash p (length p) = Some k" and k0: "k \<noteq> 0"
    and r: "r = take (if p ! (k - 1) = CHR '':'' then Suc k else k) p"
    by (auto simp: truncateToParent_def split: option.splits if_splits)
  from lastSlash_Some [OF k] have kl: "k < length p" and
    last: "\<And>j. k < j \<Longrightarrow> j < length p \<Longrightarrow> p ! j \<noteq> CHR ''/''" by auto
  have ik: "Suc i \<le> k" using last [of "Suc i"] assms(2,4) by (cases "k < Suc i") auto
  show ?thesis
  proof (cases "Suc i = k")
    case True
    then have "p ! (k - 1) = CHR '':''" using assms(3) by auto
    then show ?thesis using r True kl by (auto simp: min_def)
  next
    case False
    then have "i + 2 \<le> k" using ik by simp
    then show ?thesis using r kl by (auto simp: min_def)
  qed
qed

lemma pathAppend_result:
  assumes "pathAppend (Some s) (Some cap) (Some d) ok = Inr (Some (r, n))"
  shows "s \<noteq> [] \<and> r = (if last s = CHR ''/'' then s @ d else s @ ''/'' @ d)"
  using assms
  by (auto simp: pathAppend_def Let_def last_conv_nth split: if_splits)

lemma lastSlash_skip:
  "CHR ''/'' \<notin> set d \<Longrightarrow> k \<le> length d \<Longrightarrow>
   lastSlash (s @ d) (length s + k) = lastSlash (s @ d) (length s)"
proof (induction k)
  case 0
  then show ?case by simp
next
  case (Suc k)
  then have "d ! k \<in> set d" by simp
  with Suc.prems have "d ! k \<noteq> CHR ''/''" by metis
  then have "(s @ d) ! (length s + k) \<noteq> CHR ''/''"
    by (simp add: nth_append)
  with Suc show ?case by simp
qed

lemma truncate_to_root:
  assumes "CHR ''/'' \<notin> set e"
  shows "truncateToParent ((q @ '':/'') @ e) = Inr (q @ '':/'')"
proof -
  let ?s = "q @ '':/''"
  have "lastSlash (?s @ e) (length ?s + length e) = lastSlash (?s @ e) (length ?s)"
    using assms by (rule lastSlash_skip) simp
  also have "\<dots> = Some (Suc (length q))"
    by (simp add: nth_append)
  finally have "lastSlash (?s @ e) (length (?s @ e)) = Some (Suc (length q))"
    by simp
  then show ?thesis
    by (simp add: truncateToParent_def nth_append)
qed

text \<open>
  C9: appending \<open>games\<close> to \<open>sdmc:/\<close> gives \<open>sdmc:/games\<close>; in general the appended path
  is the old one, a separator unless the old one ends with one, and the component.
  Cutting \<open>sdmc:/games\<close> back gives \<open>sdmc:/\<close>, and cutting \<open>sdmc:/\<close> back leaves it
  unchanged. In general a path cut back keeps every separator that directly follows a
  colon, with all that stands before it, and a component without separator appended to
  a root \<open>q:/\<close> is cut back to exactly that root.
\<close>

theorem C9_path_round_trip:
  "(\<exists>n. pathAppend (Some ''sdmc:/'') (Some cap) (Some ''games'') True
          = Inr (Some (''sdmc:/games'', n)))
   \<and> truncateToParent ''sdmc:/games'' = Inr ''sdmc:/''
   \<and> truncateToParent ''sdmc:/'' = Inr ''sdmc:/''
   \<and> (pathAppend (Some s) (Some cap') (Some d) ok = Inr (Some (r, m))
        \<longrightarrow> r = (if last s = CHR ''/'' then s @ d else s @ ''/'' @ d))
   \<and> (truncateToParent p = Inr t \<and> Suc i < length p \<and> p ! i = CHR '':'' \<and> p ! Suc i = CHR ''/''
        \<longrightarrow> i + 2 \<le> length t \<and> take (i + 2) t = take (i + 2) p)
   \<and> (CHR ''/'' \<notin> set e \<longrightarrow> truncateToParent ((q @ '':/'') @ e) = Inr (q @ '':/''))"
proof -
  have 1: "pathAppend (Some ''sdmc:/'') (Some cap) (Some ''games'') True
             = Inr (Some (''sdmc:/games'', max cap 12))"
    by (auto simp: pathAppend_def Let_def max_def)
  have 2: "truncateToParent ''sdmc:/games'' = Inr ''sdmc:/''"
    "truncateToParent ''sdmc:/'' = Inr ''sdmc:/''"
    by (simp_all add: truncateToParent_def)
  show ?thesis
    using 1 2 pathAppend_result [of s cap' d ok r m] truncate_keeps_root [of p t i]
      truncate_to_root [of e q]
    by simp
qed

theorem C9_path_round_trip_witness:
  "pathAppend (Some ''sdmc:/roms'') (Some 11) (Some ''game.gba'') True
     = Inr (Some (''sdmc:/roms/game.gba'', 20))
   \<and> truncateToParent ''sdmc:/roms/game.gba'' = Inr ''sdmc:/roms''
   \<and> truncateToParent ''sdmc:/roms'' = Inr ''sdmc:/''
   \<and> CHR ''/'' \<notin> set ''roms''
   \<and> truncateToParent ((''sdmc'' @ '':/'') @ ''roms'') = Inr (''sdmc'' @ '':/'')"
  using C9_path_round_trip [of 7 "''sdmc:/roms''" 11 "''game.gba''" True "''sdmc:/roms/game.gba''" 20
      "''sdmc:/roms''" "''sdmc:/''" 4 "''roms''" "''sdmc''"]
  by (simp add: pathAppend_def truncateToParent_def)

section \<open>The scan: proofs\<close>

subsection \<open>The state between two entries is kept\<close>

lemma fcramAlloc_cases:
  assumes "fcramAlloc fresh h = (p, h')"
  shows "(p = 0 \<and> objs h' = objs h \<and> brk h' = brk h
          \<and> (grants h = [] \<and> grants h' = [] \<or> grants h = Deny # grants h'))
       \<or> (\<exists>g. p = Suc (brk h) \<and> grants h = Grant g # grants h'
               \<and> objs h' = (objs h)(p \<mapsto> fresh g) \<and> brk h' = p)"
  using assms
  by (auto simp: fcramAlloc_def Let_def split: list.splits grant.splits)

lemma DirEntry_both [simp]:
  "(e::DirEntry)\<lparr>name := a, type := b\<rparr> = \<lparr>type = b, name = a\<rparr>"
  by (cases e) simp

lemma dlistGrow_Next:
  assumes sh: "scanInv fis h d acc ps"
    and g: "dlistGrow d h = Inr (d1, h1)" and d1: "d1 \<noteq> 0"
  shows "bufLive fis h1 \<and> listShape h1 d1 acc ps
         \<and> capOf h1 d1 = capOf h d + DLIST_GROW_SIZE"
proof -
  from sh obtain dl where dl: "objs h d = Some (DList dl)" "length acc \<le> capacity dl"
      "length (entries dl) = capacity dl" "take (length acc) (entries dl) = map2 mkEntry acc ps"
      "size_dl dl = length acc"
    and basic: "fis \<noteq> 0" "fis \<le> brk h" "objs h fis = Some Fis" "d \<noteq> 0" "d \<le> brk h"
       "length ps = length acc" "distinct ps"
    and names: "\<And>i. i < length acc \<Longrightarrow>
       ps ! i \<noteq> 0 \<and> ps ! i \<le> brk h \<and> objs h (ps ! i) = Some (Str (snd (acc ! i)))"
    by (auto simp: scanInv_def listShape_def sizeOf_def bufLive_def)
  have der: "derefList h d = Inr dl" using dl basic by (simp add: derefList_def)
  obtain p ha where al: "fcramAlloc (rawList (capacity dl + DLIST_GROW_SIZE)) h = (p, ha)"
    by (cases "fcramAlloc (rawList (capacity dl + DLIST_GROW_SIZE)) h") auto
  from g der al d1 have p0: "p \<noteq> 0"
    by (auto simp: dlistGrow_def Let_def split: sum.splits if_splits)
  with fcramAlloc_cases [OF al] obtain gg where
    p: "p = Suc (brk h)"
    and ha: "objs ha = (objs h)(p \<mapsto> rawList (capacity dl + DLIST_GROW_SIZE) gg)" "brk ha = p"
    by auto
  have pd: "p \<noteq> d" using p basic by simp
  from g der al p0 ha pd dl
  have res: "d1 = p"
    "objs h1 = ((objs h)(p \<mapsto> DList \<lparr>capacity = capacity dl + DLIST_GROW_SIZE, size_dl = gg,
        entries = take (length acc) (entries dl)
                  @ drop (length acc) (replicate (capacity dl + DLIST_GROW_SIZE) indet)\<rparr>))
        (d := None)"
     "brk h1 = p"
    by (auto simp: dlistGrow_def Let_def derefList_def rawList_def fcramFree_def
        split: sum.splits if_splits)
  have np: "\<And>i. i < length acc \<Longrightarrow> ps ! i \<noteq> p \<and> ps ! i \<noteq> d"
    using names p dl(1) by fastforce
  show ?thesis
    unfolding listShape_def capOf_def bufLive_def
    using res basic dl pd p names np
    by (auto simp: le_Suc_eq)
qed

lemma growIfFull_Next:
  assumes inv: "scanInv fis h d acc ps"
    and g: "growIfFull h d = Inr (d1, h1)" and d1: "d1 \<noteq> 0"
  shows "bufLive fis h1 \<and> listShape h1 d1 acc ps \<and> length acc < capOf h1 d1"
proof -
  from inv obtain dl where dl: "objs h d = Some (DList dl)" "length acc \<le> capacity dl"
      "size_dl dl = length acc" and d0: "d \<noteq> 0"
    by (auto simp: scanInv_def listShape_def sizeOf_def)
  have der: "derefList h d = Inr dl" using dl d0 by (simp add: derefList_def)
  show ?thesis
  proof (cases "size_dl dl = capacity dl")
    case True
    with g der have "dlistGrow d h = Inr (d1, h1)" by (simp add: growIfFull_def)
    from dlistGrow_Next [OF inv this d1]
    have a: "bufLive fis h1" "listShape h1 d1 acc ps"
      and b: "capOf h1 d1 = capOf h d + DLIST_GROW_SIZE"
      by blast+
    have "capOf h d = length acc" using dl True by (simp add: capOf_def)
    with a b show ?thesis by (simp add: DLIST_GROW_SIZE_def)
  next
    case False
    with g der have "d1 = d" "h1 = h" by (simp_all add: growIfFull_def)
    with inv False dl show ?thesis by (simp add: scanInv_def capOf_def)
  qed
qed

lemma storeEntry_Next:
  assumes bl: "bufLive fis h" and sh: "listShape h d acc ps" and room: "length acc < capOf h d"
    and st: "storeEntry fi h d (length acc) = Inr (Next (h', d', n'))"
  shows "d' = d \<and> n' = Suc (length acc)
         \<and> scanInv fis h' d (acc @ [entryOf fi]) (ps @ [Suc (brk h)])"
proof -
  from bl sh room obtain dl where dl: "objs h d = Some (DList dl)" "length acc < capacity dl"
      "length (entries dl) = capacity dl" "take (length acc) (entries dl) = map2 mkEntry acc ps"
    and basic: "fis \<noteq> 0" "fis \<le> brk h" "objs h fis = Some Fis" "d \<noteq> 0" "d \<le> brk h"
       "length ps = length acc" "distinct ps"
    and names: "\<And>i. i < length acc \<Longrightarrow>
       ps ! i \<noteq> 0 \<and> ps ! i \<le> brk h \<and> objs h (ps ! i) = Some (Str (snd (acc ! i)))"
    by (auto simp: listShape_def capOf_def bufLive_def)
  obtain p h2 where al: "fcramAlloc (\<lambda>_. Blank) h = (p, h2)"
    by (cases "fcramAlloc (\<lambda>_. Blank) h") auto
  have der2: "derefList h2 d = Inr dl"
    using fcramAlloc_cases [OF al] dl basic by (auto simp: derefList_def)
  from st al der2 dl have p0: "p \<noteq> 0"
    by (auto simp: storeEntry_def setEntry_def Let_def split: sum.splits if_splits)
  with fcramAlloc_cases [OF al] have
    p: "p = Suc (brk h)" and h2: "objs h2 = (objs h)(p \<mapsto> Blank)" "brk h2 = p"
    by auto
  have pd: "p \<noteq> d" "p \<noteq> fis" using p basic by simp_all
  define n where "n = length acc"
  from st al der2 p0 h2 pd dl
  have res: "d' = d" "n' = Suc n"
    "objs h' = (objs h)(p \<mapsto> Str (cstr (fname fi)),
        d \<mapsto> DList (dl\<lparr>entries := (entries dl)[n := \<lparr>type = Some (entTypeOf fi), name = Some p\<rparr>],
                         size_dl := Suc n\<rparr>))"
    "brk h' = p"
    by (auto simp: storeEntry_def setEntry_def setSize_def Let_def derefList_def n_def
        fun_upd_twist split: sum.splits if_splits)
  have np: "\<And>i. i < length acc \<Longrightarrow> ps ! i \<noteq> p \<and> ps ! i \<noteq> d"
    using names p dl(1) by fastforce
  have pnotin: "p \<notin> set ps"
  proof
    assume "p \<in> set ps"
    then obtain i where "i < length ps" "ps ! i = p" by (auto simp: in_set_conv_nth)
    with np basic show False by auto
  qed
  have tk: "take (Suc n) ((entries dl)[n := \<lparr>type = Some (entTypeOf fi), name = Some p\<rparr>])
            = map2 mkEntry (acc @ [entryOf fi]) (ps @ [p])"
    using dl basic
    by (simp add: take_Suc_conv_app_nth n_def mkEntry_def entryOf_def)
  show ?thesis
    unfolding scanInv_def listShape_def capOf_def sizeOf_def bufLive_def
    using res basic dl pd p names np pnotin tk
    by (auto simp: le_Suc_eq nth_append n_def entryOf_def less_Suc_eq)
qed

lemma addEntry_Next:
  assumes inv: "scanInv fis h d acc ps"
    and a: "addEntry flt fi h d (length acc) = Inr (Next (h', d', n'))"
  shows "\<exists>ps'. scanInv fis h' d' (acc @ kept flt [fi]) ps' \<and> n' = length (acc @ kept flt [fi])"
proof (cases "skipEntry flt fi")
  case True
  with a inv show ?thesis by (auto simp: addEntry_def kept_def)
next
  case False
  with a obtain d1 h1 where g: "growIfFull h d = Inr (d1, h1)" and d1: "d1 \<noteq> 0"
    and st: "storeEntry fi h1 d1 (length acc) = Inr (Next (h', d', n'))"
    by (auto simp: addEntry_def split: sum.splits if_splits)
  from growIfFull_Next [OF inv g d1] storeEntry_Next [OF _ _ _ st]
  show ?thesis using False by (auto simp: kept_def)
qed

lemma kept_Cons: "kept flt (fi # fis) = kept flt [fi] @ kept flt fis"
  by (simp add: kept_def)

lemma kept_append: "kept flt (xs @ ys) = kept flt xs @ kept flt ys"
  by (simp add: kept_def)

lemma scanBatch_Next:
  assumes "scanInv fis h d acc ps"
    and "scanBatch flt batch h d (length acc) = Inr (Next (h', d', n'))"
  shows "\<exists>ps'. scanInv fis h' d' (acc @ kept flt batch) ps' \<and> n' = length (acc @ kept flt batch)"
  using assms
proof (induction batch arbitrary: h d acc ps)
  case Nil
  then show ?case by (auto simp: kept_def)
next
  case (Cons fi batch)
  from Cons.prems(2) obtain h1 d1 n1 where
    a: "addEntry flt fi h d (length acc) = Inr (Next (h1, d1, n1))"
    and b: "scanBatch flt batch h1 d1 n1 = Inr (Next (h', d', n'))"
    by (auto split: sum.splits flow.splits)
  from addEntry_Next [OF Cons.prems(1) a] obtain ps1 where
    i1: "scanInv fis h1 d1 (acc @ kept flt [fi]) ps1" and n1: "n1 = length (acc @ kept flt [fi])"
    by auto
  from Cons.IH [OF i1 b [unfolded n1]] show ?case
    by (simp add: kept_Cons [of flt fi batch])
qed

lemma scanLoop_Next:
  assumes "scanInv fis h d acc ps"
    and "scanLoop flt rds h d (length acc) = Inr (Next (res, h', d'))"
  shows "\<exists>acc' ps'. scanInv fis h' d' acc' ps'
           \<and> (res = RES_OK \<longrightarrow> acc' = acc @ kept flt (entriesRead rds))"
  using assms
proof (induction rds arbitrary: h d acc ps)
  case Nil
  then show ?case by (auto simp: fReadDir_def kept_def)
next
  case (Cons r rds)
  obtain rr offer where r: "r = (rr, offer)" by (cases r)
  define batch where "batch = take DIR_READ_BLOCKS offer"
  show ?case
  proof (cases "rr = RES_OK")
    case False
    with Cons.prems r show ?thesis by (auto simp: fReadDir_def Let_def)
  next
    case True
    with Cons.prems(2) r obtain h1 d1 n1 where
      b: "scanBatch flt batch h d (length acc) = Inr (Next (h1, d1, n1))"
      and c: "if batch = [] then res = RES_OK \<and> h' = h1 \<and> d' = d1
              else scanLoop flt rds h1 d1 n1 = Inr (Next (res, h', d'))"
      by (auto simp: fReadDir_def Let_def batch_def split: sum.splits flow.splits if_splits)
    from scanBatch_Next [OF Cons.prems(1) b] obtain ps1 where
      i1: "scanInv fis h1 d1 (acc @ kept flt batch) ps1"
      and n1: "n1 = length (acc @ kept flt batch)"
      by auto
    show ?thesis
    proof (cases "batch = []")
      case True
      with c i1 r \<open>rr = RES_OK\<close> show ?thesis by (auto simp: kept_def batch_def)
    next
      case False
      with c have "scanLoop flt rds h1 d1 (length (acc @ kept flt batch)) = Inr (Next (res, h', d'))"
        by (simp add: n1)
      from Cons.IH [OF i1 this] False r True show ?thesis
        by (auto simp: kept_append batch_def)
    qed
  qed
qed

subsection \<open>Names, their order and the sort\<close>

lemma cstr_NUL_free: "NUL \<notin> set (cstr b)"
  by (auto simp: cstr_def dest: set_takeWhileD)

lemma cstr_idem: "NUL \<notin> set s \<Longrightarrow> cstr s = s"
  by (induction s) (auto simp: cstr_def)

lemma cstr_Cons: "cstr (x # xs) = (if x = NUL then [] else x # cstr xs)"
  by (simp add: cstr_def)

lemma cstr_Nil [simp]: "cstr [] = []"
  by (simp add: cstr_def)

lemma byte_inj: "byte x = byte y \<longleftrightarrow> x = y"
  by (simp add: byte_def)

lemma byte_nonneg: "0 \<le> byte x"
  by (simp add: byte_def)

lemma byte_NUL: "byte x = 0 \<longleftrightarrow> x = NUL"
proof -
  have "byte NUL = 0" by (simp add: byte_def NUL_def)
  then show ?thesis using byte_inj [of x NUL] by auto
qed

lemma strcmp_eq0: "strcmp a b = 0 \<longleftrightarrow> cstr a = cstr b"
proof (induction a b rule: strcmp.induct)
  case 1
  then show ?case by simp
next
  case (2 y ys)
  then show ?case by (auto simp: cstr_Cons byte_NUL)
next
  case (3 x xs)
  then show ?case by (auto simp: cstr_Cons byte_NUL)
next
  case (4 x xs y ys)
  then show ?case by (auto simp: cstr_Cons byte_inj)
qed

lemma strcmp_le:
  "NUL \<notin> set a \<Longrightarrow> NUL \<notin> set b \<Longrightarrow> strcmp a b \<le> 0 \<longleftrightarrow> bytesLe a b"
proof (induction a b rule: strcmp.induct)
  case 1
  then show ?case by simp
next
  case (2 y ys)
  then show ?case using byte_nonneg [of y] by simp
next
  case (3 x xs)
  then show ?case using byte_nonneg [of x] byte_NUL [of x] by auto
next
  case (4 x xs y ys)
  then show ?case using byte_inj [of x y] by auto
qed

lemma bytesLe_total: "bytesLe a b \<or> bytesLe b a"
  by (induction a b rule: bytesLe.induct) (auto simp: byte_inj not_less order_le_less)

lemma bytesLe_trans: "bytesLe a b \<Longrightarrow> bytesLe b c \<Longrightarrow> bytesLe a c"
proof (induction a b arbitrary: c rule: bytesLe.induct)
  case (1 ys)
  then show ?case by simp
next
  case (2 x xs)
  then show ?case by simp
next
  case (3 x xs y ys)
  then show ?case by (cases c) auto
qed

lemma dlistCompare_le:
  assumes "nulFree a" "nulFree b"
  shows "dlistCompare a b \<le> 0 \<longleftrightarrow>
           (fst a = ENTRY_DIRECTORY \<and> fst b = ENTRY_FILE) \<or> (fst a = fst b \<and> bytesLe (snd a) (snd b))"
  using assms strcmp_le [of "snd a" "snd b"]
  by (cases "fst a"; cases "fst b") (auto simp: dlistCompare_def nulFree_def)

lemma dlistCompare_total:
  "nulFree a \<Longrightarrow> nulFree b \<Longrightarrow> dlistCompare a b \<le> 0 \<or> dlistCompare b a \<le> 0"
  using bytesLe_total [of "snd a" "snd b"]
  by (cases "fst a"; cases "fst b") (auto simp: dlistCompare_le)

lemma dlistCompare_trans:
  "nulFree a \<Longrightarrow> nulFree b \<Longrightarrow> nulFree c \<Longrightarrow>
   dlistCompare a b \<le> 0 \<Longrightarrow> dlistCompare b c \<le> 0 \<Longrightarrow> dlistCompare a c \<le> 0"
  using bytesLe_trans [of "snd a" "snd b" "snd c"]
  by (auto simp: dlistCompare_le)

lemma set_qsort_insert: "set (qsort_insert cmp x ys) = insert x (set ys)"
  by (induction ys) auto

lemma set_qsort: "set (qsort cmp xs) = set xs"
  by (induction xs) (auto simp: set_qsort_insert)

lemma mset_qsort_insert: "mset (qsort_insert cmp x ys) = add_mset x (mset ys)"
  by (induction ys) auto

lemma mset_qsort: "mset (qsort cmp xs) = mset xs"
  by (induction xs) (auto simp: mset_qsort_insert)

lemma length_qsort: "length (qsort cmp xs) = length xs"
  using mset_qsort [of cmp xs] by (metis size_mset)

lemma sorted_qsort_insert:
  assumes tot: "\<And>a b. a \<in> A \<Longrightarrow> b \<in> A \<Longrightarrow> cmp a b \<le> 0 \<or> cmp b a \<le> 0"
    and tr: "\<And>a b c. a \<in> A \<Longrightarrow> b \<in> A \<Longrightarrow> c \<in> A \<Longrightarrow> cmp a b \<le> 0 \<Longrightarrow> cmp b c \<le> 0 \<Longrightarrow> cmp a c \<le> 0"
    and "x \<in> A" "set ys \<subseteq> A" "sorted_wrt (\<lambda>a b. cmp a b \<le> 0) ys"
  shows "sorted_wrt (\<lambda>a b. cmp a b \<le> 0) (qsort_insert cmp x ys)"
  using assms(3-)
proof (induction ys)
  case Nil
  then show ?case by simp
next
  case (Cons y ys)
  show ?case
  proof (cases "cmp x y \<le> 0")
    case True
    have "\<And>z. z \<in> set ys \<Longrightarrow> cmp x z \<le> 0"
    proof -
      fix z assume z: "z \<in> set ys"
      with Cons.prems have "cmp y z \<le> 0" by simp
      from tr [OF _ _ _ True this] Cons.prems z show "cmp x z \<le> 0" by auto
    qed
    with True Cons.prems show ?thesis by auto
  next
    case False
    with tot [of x y] Cons.prems have yx: "cmp y x \<le> 0" by auto
    from Cons have "sorted_wrt (\<lambda>a b. cmp a b \<le> 0) (qsort_insert cmp x ys)" by simp
    with False yx Cons.prems show ?thesis by (auto simp: set_qsort_insert)
  qed
qed

lemma sorted_qsort:
  assumes tot: "\<And>a b. a \<in> A \<Longrightarrow> b \<in> A \<Longrightarrow> cmp a b \<le> 0 \<or> cmp b a \<le> 0"
    and tr: "\<And>a b c. a \<in> A \<Longrightarrow> b \<in> A \<Longrightarrow> c \<in> A \<Longrightarrow> cmp a b \<le> 0 \<Longrightarrow> cmp b c \<le> 0 \<Longrightarrow> cmp a c \<le> 0"
    and "set xs \<subseteq> A"
  shows "sorted_wrt (\<lambda>a b. cmp a b \<le> 0) (qsort cmp xs)"
  using assms(3)
proof (induction xs)
  case Nil
  then show ?case by simp
next
  case (Cons x xs)
  then have "sorted_wrt (\<lambda>a b. cmp a b \<le> 0) (qsort cmp xs)" by simp
  have "sorted_wrt (\<lambda>a b. cmp a b \<le> 0) (qsort_insert cmp x (qsort cmp xs))"
  proof (rule sorted_qsort_insert [where A = A])
    show "x \<in> A" using Cons.prems by simp
    show "set (qsort cmp xs) \<subseteq> A" using Cons.prems by (simp add: set_qsort)
    show "sorted_wrt (\<lambda>a b. cmp a b \<le> 0) (qsort cmp xs)" by fact
  qed (use tot tr in blast)+
  then show ?case by simp
qed

lemma qsort_insert_map:
  "map f (qsort_insert (\<lambda>a b. c (f a) (f b)) x ys) = qsort_insert c (f x) (map f ys)"
  by (induction ys) auto

lemma qsort_map: "map f (qsort (\<lambda>a b. c (f a) (f b)) xs) = qsort c (map f xs)"
  by (induction xs) (auto simp: qsort_insert_map)

lemma sorted_dlistCompare:
  assumes "\<forall>k \<in> set es. nulFree k"
  shows "sorted_wrt (\<lambda>a b. dlistCompare a b \<le> 0) (qsort dlistCompare es)"
proof (rule sorted_qsort [where A = "Collect nulFree"])
  show "set es \<subseteq> Collect nulFree" using assms by auto
next
  fix a b :: "DirEntryType \<times> string"
  assume "a \<in> Collect nulFree" "b \<in> Collect nulFree"
  then show "dlistCompare a b \<le> 0 \<or> dlistCompare b a \<le> 0"
    using dlistCompare_total [of a b] by simp
next
  fix a b c :: "DirEntryType \<times> string"
  assume "a \<in> Collect nulFree" "b \<in> Collect nulFree" "c \<in> Collect nulFree"
    "dlistCompare a b \<le> 0" "dlistCompare b c \<le> 0"
  then show "dlistCompare a c \<le> 0"
    using dlistCompare_trans [of a b c] by simp
qed

lemma sorted_two_key:
  assumes nf: "\<forall>k \<in> set es. nulFree k"
    and so: "sorted_wrt (\<lambda>a b. dlistCompare a b \<le> 0) es"
  shows "dirsPrecedeFiles es \<and> namesAscend es"
proof -
  have le: "\<And>i j. i < j \<Longrightarrow> j < length es \<Longrightarrow> dlistCompare (es ! i) (es ! j) \<le> 0"
    using so by (simp add: sorted_wrt_iff_nth_less)
  have nfi: "\<And>i. i < length es \<Longrightarrow> nulFree (es ! i)" using nf by simp
  have 1: "dirsPrecedeFiles es"
    unfolding dirsPrecedeFiles_def
  proof (intro allI impI)
    fix i j
    assume a: "i < length es \<and> j < length es \<and> fst (es ! i) = ENTRY_DIRECTORY \<and> fst (es ! j) = ENTRY_FILE"
    show "i < j"
    proof (rule ccontr)
      assume "\<not> i < j"
      with a have "j < i" by (cases "i = j") auto
      from le [OF this] a have "dlistCompare (es ! j) (es ! i) \<le> 0" by simp
      with a nfi show False by (auto simp: dlistCompare_le)
    qed
  qed
  have 2: "namesAscend es"
    unfolding namesAscend_def
  proof (intro allI impI)
    fix i
    assume a: "Suc i < length es \<and> fst (es ! i) = fst (es ! Suc i)"
    then have "dlistCompare (es ! i) (es ! Suc i) \<le> 0" using le [of i "Suc i"] by simp
    with a nfi [of i] nfi [of "Suc i"] show "bytesLe (snd (es ! i)) (snd (es ! Suc i))"
      by (auto simp: dlistCompare_le)
  qed
  from 1 2 show ?thesis ..
qed

subsection \<open>A successful scan\<close>

lemma those_map_Some:
  "(\<And>x. x \<in> set xs \<Longrightarrow> f x = Some (g x)) \<Longrightarrow> those (map f xs) = Some (map g xs)"
  by (induction xs) auto

lemma resolve_mkEntry:
  "objs h p = Some (Str (snd k)) \<Longrightarrow> resolve h (mkEntry k p) = Some (k, p)"
  by (simp add: resolve_def mkEntry_def)

lemma resolve_zip:
  assumes "length ps = length acc"
    and "\<And>i. i < length acc \<Longrightarrow> objs h (ps ! i) = Some (Str (snd (acc ! i)))"
  shows "those (map (resolve h) (map2 mkEntry acc ps)) = Some (zip acc ps)"
proof -
  have "those (map (resolve h) (map2 mkEntry acc ps))
        = those (map (\<lambda>kp. resolve h (mkEntry (fst kp) (snd kp))) (zip acc ps))"
    by (simp add: case_prod_unfold comp_def)
  also have "\<dots> = Some (map (\<lambda>kp. kp) (zip acc ps))"
  proof (rule those_map_Some)
    fix x assume "x \<in> set (zip acc ps)"
    then obtain i where i: "i < length acc" "x = (acc ! i, ps ! i)"
      using assms(1) by (auto simp: set_zip)
    with assms(2) [of i] show "resolve h (mkEntry (fst x) (snd x)) = Some x"
      by (simp add: resolve_mkEntry)
  qed
  finally show ?thesis by simp
qed

lemma qsortList_view:
  assumes sh: "listShape h d acc ps" and sz: "sizeOf h d = length acc"
    and q: "qsortList d h = Inr h'"
  shows "listView h' d = Some (qsort dlistCompare acc)"
proof -
  from sh sz obtain dl where dl: "objs h d = Some (DList dl)" "length acc \<le> capacity dl"
      "length (entries dl) = capacity dl" "take (length acc) (entries dl) = map2 mkEntry acc ps"
      "size_dl dl = length acc"
    and basic: "d \<noteq> 0" "length ps = length acc"
    and names: "\<And>i. i < length acc \<Longrightarrow> objs h (ps ! i) = Some (Str (snd (acc ! i)))"
    by (auto simp: listShape_def sizeOf_def)
  let ?cmp = "\<lambda>a b. dlistCompare (fst a) (fst b)"
  let ?ks = "qsort ?cmp (zip acc ps)"
  have th: "those (map (resolve h) (take (size_dl dl) (entries dl))) = Some (zip acc ps)"
    using dl resolve_zip [OF basic(2) names] by simp
  have der: "derefList h d = Inr dl" using dl basic by (simp add: derefList_def)
  define dl' where "dl' = dl\<lparr>entries := map (\<lambda>k. \<lparr>type = Some (fst (fst k)), name = Some (snd k)\<rparr>) ?ks
                      @ drop (size_dl dl) (entries dl)\<rparr>"
  from q der th dl have h': "h' = h\<lparr>objs := (objs h)(d \<mapsto> DList dl')\<rparr>"
    by (simp add: qsortList_def dl'_def)
  have len: "length ?ks = length acc" using basic by (simp add: length_qsort)
  have mk: "map (\<lambda>k. \<lparr>type = Some (fst (fst k)), name = Some (snd k)\<rparr>) ?ks
            = map2 mkEntry (map fst ?ks) (map snd ?ks)"
    by (simp add: map2_map_map mkEntry_def)
  have tk: "take (size_dl dl') (entries dl') = map2 mkEntry (map fst ?ks) (map snd ?ks)"
    using len dl by (simp add: dl'_def mk)
  have nd: "\<And>i. i < length acc \<Longrightarrow> ps ! i \<noteq> d" using names dl(1) by fastforce
  have names': "\<And>i. i < length (map fst ?ks) \<Longrightarrow>
     objs h' (map snd ?ks ! i) = Some (Str (snd (map fst ?ks ! i)))"
  proof -
    fix i assume "i < length (map fst ?ks)"
    then have i: "i < length ?ks" by simp
    then have "?ks ! i \<in> set (zip acc ps)" using set_qsort [of ?cmp "zip acc ps"] nth_mem by blast
    then obtain j where j: "j < length acc" "?ks ! i = (acc ! j, ps ! j)"
      using basic by (auto simp: set_zip)
    with names [of j] nd [of j] i show "objs h' (map snd ?ks ! i) = Some (Str (snd (map fst ?ks ! i)))"
      by (simp add: h')
  qed
  have "those (map (resolve h') (map2 mkEntry (map fst ?ks) (map snd ?ks)))
        = Some (zip (map fst ?ks) (map snd ?ks))"
    by (rule resolve_zip) (use names' in auto)
  then have "those (map (resolve h') (take (size_dl dl') (entries dl'))) = Some ?ks"
    by (simp add: tk zip_map_fst_snd)
  moreover have "derefList h' d = Inr dl'" using basic by (simp add: derefList_def h')
  moreover have "size_dl dl' \<le> length (entries dl')" using dl len by (simp add: dl'_def)
  moreover have "map fst ?ks = qsort dlistCompare acc"
    using qsort_map [of fst dlistCompare "zip acc ps"] basic by simp
  ultimately show ?thesis by (simp add: listView_def)
qed

lemma free_buf_keeps_list:
  assumes "scanInv fis h d acc ps" and "fcramFree fis h = Inr h1"
  shows "listShape h1 d acc ps \<and> sizeOf h1 d = length acc"
proof -
  from assms(1) have f: "fis \<noteq> 0" "objs h fis = Some Fis"
    and sh: "listShape h d acc ps" and sz: "sizeOf h d = length acc"
    by (auto simp: scanInv_def bufLive_def)
  from assms(2) f have h1: "h1 = h\<lparr>objs := (objs h)(fis := None)\<rparr>"
    by (simp add: fcramFree_def)
  from sh f have "fis \<noteq> d" "\<And>i. i < length acc \<Longrightarrow> ps ! i \<noteq> fis"
    by (auto simp: listShape_def)
  with sh sz show ?thesis
    by (auto simp: listShape_def sizeOf_def h1)
qed

lemma scanInv_init:
  assumes "fcramAlloc (\<lambda>_. Fis) h0 = (fis, h1)" and "fis \<noteq> 0"
    and "dlistNew h1 = (d, h2)" and "d \<noteq> 0"
  shows "scanInv fis h2 d [] []"
proof -
  from fcramAlloc_cases [OF assms(1)] assms(2)
  have f: "fis = Suc (brk h0)" "objs h1 = (objs h0)(fis \<mapsto> Fis)" "brk h1 = fis" by auto
  obtain p ha where al: "fcramAlloc (rawList DLIST_GROW_SIZE) h1 = (p, ha)"
    by (cases "fcramAlloc (rawList DLIST_GROW_SIZE) h1") auto
  from assms(3,4) al have p0: "p \<noteq> 0" by (auto simp: dlistNew_def split: if_splits)
  with fcramAlloc_cases [OF al] obtain g where
    p: "p = Suc (brk h1)" "objs ha = (objs h1)(p \<mapsto> rawList DLIST_GROW_SIZE g)" "brk ha = p"
    by auto
  from assms(3) al p0 p have "d = p"
    "objs h2 = (objs h1)(p \<mapsto> DList \<lparr>capacity = DLIST_GROW_SIZE, size_dl = 0,
        entries = replicate DLIST_GROW_SIZE indet\<rparr>)"
    "brk h2 = p"
    by (auto simp: dlistNew_def derefList_def rawList_def)
  with f p show ?thesis
    by (auto simp: scanInv_def bufLive_def listShape_def sizeOf_def)
qed

lemma kept_nulFree: "k \<in> set (kept flt fis) \<Longrightarrow> nulFree k"
  by (auto simp: kept_def entryOf_def nulFree_def cstr_NUL_free)

lemma addEntry_Bail:
  "addEntry flt fi h d n = Inr (Bail res h' d') \<Longrightarrow> res = RES_OUT_OF_MEM"
  by (auto simp: addEntry_def storeEntry_def Let_def
      split: sum.splits if_splits prod.splits)

lemma scanBatch_Bail:
  "scanBatch flt batch h d n = Inr (Bail res h' d') \<Longrightarrow> res = RES_OUT_OF_MEM"
proof (induction batch arbitrary: h d n)
  case Nil
  then show ?case by simp
next
  case (Cons fi batch)
  then show ?case
    by (auto split: sum.splits flow.splits dest: addEntry_Bail)
qed

lemma scanLoop_Bail:
  "scanLoop flt rds h d n = Inr (Bail res h' d') \<Longrightarrow> res = RES_OUT_OF_MEM"
proof (induction rds arbitrary: h d n)
  case Nil
  then show ?case by simp
next
  case (Cons r rds)
  then show ?case
    by (auto simp: Let_def split: sum.splits flow.splits if_splits dest: scanBatch_Bail)
qed

lemma scanDir_success:
  assumes "scanDir path flt dListOut fsys h = Inr (RES_OK, out, h')"
  shows "\<exists>d. out = Some d
           \<and> listView h' d = Some (qsort dlistCompare (kept flt (entriesRead (snd (fsys path)))))"
proof -
  from assms obtain old where old: "dListOut = Some old"
    by (cases dListOut) (auto simp: scanDir_def)
  note assms = assms [unfolded old]
  from assms obtain h0 where h0: "(if old \<noteq> 0 then fcramFree old h else Inr h) = Inr h0"
    by (auto simp: scanDir_def split: sum.splits)
  obtain fis h1 where al: "fcramAlloc (\<lambda>_. Fis) h0 = (fis, h1)"
    by (cases "fcramAlloc (\<lambda>_. Fis) h0") auto
  obtain d h2 where nw: "dlistNew h1 = (d, h2)" by (cases "dlistNew h1") auto
  from assms h0 al nw have nz: "fis \<noteq> 0" "d \<noteq> 0"
    by (auto simp: scanDir_def Let_def split: sum.splits if_splits)
  have inv0: "scanInv fis h2 d [] []" by (rule scanInv_init [OF al nz(1) nw nz(2)])
  from assms h0 al nw nz obtain h3 d3 h4 where
    op: "fst (fsys path) = RES_OK"
    and lp: "scanLoop flt (snd (fsys path)) h2 d 0 = Inr (Next (RES_OK, h3, d3))"
    and fr: "fcramFree fis h3 = Inr h4"
    and qs: "qsortList d3 h4 = Inr h'" and out: "out = Some d3"
    by (auto simp: scanDir_def Let_def fOpenDir_def split: sum.splits if_splits flow.splits
        dest: scanLoop_Bail)
  from scanLoop_Next [OF inv0, of flt "snd (fsys path)" RES_OK h3 d3] lp
  obtain ps where inv3: "scanInv fis h3 d3 (kept flt (entriesRead (snd (fsys path)))) ps"
    by auto
  from free_buf_keeps_list [OF inv3 fr] qsortList_view [OF _ _ qs] out
  show ?thesis by auto
qed

subsection \<open>The sorted result and the filter\<close>

lemmas eval_cong = sum.case_cong_weak flow.case_cong_weak prod.case_cong_weak if_weak_cong
  option.case_cong_weak list.case_cong_weak obj.case_cong_weak grant.case_cong_weak

lemmas eval_defs = scanOutcome_def scanView_def listView_def scanDir_def dlistNew_def dlistGrow_def
  dlistFree_def fcramAlloc_def fcramFree_def derefList_def rawList_def addEntry_def growIfFull_def
  storeEntry_def skipEntry_def setEntry_def setSize_def
  qsortList_def resolve_def dlistCompare_def fOpenDir_def fReadDir_def heapOf_def live_def
  DIR_READ_BLOCKS_def
  DLIST_GROW_SIZE_def cstr_def strlen_def NUL_def indet_def byte_def Let_def

lemma entTypeOf_attr [simp]:
  "entTypeOf \<lparr>fattrib = 0x10, fname = n\<rparr> = ENTRY_DIRECTORY"
  "entTypeOf \<lparr>fattrib = 0x20, fname = n\<rparr> = ENTRY_FILE"
  by (simp_all add: entTypeOf_def AM_DIR_def)

lemma romDir_scan:
  "scanOutcome (scanDir ''sdmc:/'' ''.gba'' (Some 0) romDir (heapOf (replicate 5 (Grant 0))))
     = Inr (RES_OK, Some 2, [2, 3, 4, 5])"
  "scanView (scanDir ''sdmc:/'' ''.gba'' (Some 0) romDir (heapOf (replicate 5 (Grant 0))))
     = Some [(ENTRY_DIRECTORY, ''saves''), (ENTRY_FILE, ''a.gba''), (ENTRY_FILE, ''b.gba'')]"
  by (simp_all cong: eval_cong add: eval_defs romDir_def eval_nat_numeral)


lemma scan_result_cases:
  assumes "scanOutcome r = Inr (res, out, ls)"
  shows "\<exists>h'. r = Inr (res, out, h')"
  using assms by (auto simp: scanOutcome_def split: sum.splits)

lemma cstr_drop: "k \<le> length (cstr buf) \<Longrightarrow> cstr (drop k buf) = drop k (cstr buf)"
proof (induction buf arbitrary: k)
  case Nil
  then show ?case by simp
next
  case (Cons x xs)
  then show ?case by (cases k) (auto simp: cstr_Cons split: if_splits)
qed

lemma take1_cstr: "take 1 buf = ''.'' \<longleftrightarrow> take 1 (cstr buf) = ''.''"
  by (cases buf) (auto simp: cstr_Cons NUL_def)

lemma skipEntry_admitted:
  "\<not> skipEntry flt fi \<longleftrightarrow> admitted (cstr flt) (entTypeOf fi) (cstr (fname fi))"
proof (cases "strlen (fname fi) \<le> strlen flt")
  case True
  then show ?thesis
    by (cases "entTypeOf fi") (auto simp: skipEntry_def admitted_def strlen_def Let_def)
next
  case False
  then have "strlen (fname fi) - strlen flt \<le> length (cstr (fname fi))"
    by (simp add: strlen_def)
  from cstr_drop [OF this]
  have "strcmp flt (drop (strlen (fname fi) - strlen flt) (fname fi)) = 0
        \<longleftrightarrow> drop (length (cstr (fname fi)) - length (cstr flt)) (cstr (fname fi)) = cstr flt"
    by (auto simp: strcmp_eq0 strlen_def)
  with False show ?thesis
    using take1_cstr [of "fname fi"]
    by (cases "entTypeOf fi") (auto simp: skipEntry_def admitted_def strlen_def Let_def)
qed

lemma kept_admitted:
  "kept flt fis = filter (\<lambda>k. admitted (cstr flt) (fst k) (snd k)) (map entryOf fis)"
  by (induction fis) (auto simp: kept_def skipEntry_admitted entryOf_def)

text \<open>
  C5: when \<^verbatim>\<open>scanDir\<close> returns \<^verbatim>\<open>RES_OK\<close>, the slot holds a list in which every
  directory stands before every file and, where two neighbours are of the same kind,
  the first name is at most the second in the byte-wise lexicographic order.
\<close>

theorem C5_scan_sorted:
  assumes "scanDir path flt dListOut fsys h = Inr (RES_OK, out, h')"
  shows "\<exists>d es. out = Some d \<and> listView h' d = Some es
                \<and> dirsPrecedeFiles es \<and> namesAscend es"
proof -
  let ?acc = "kept flt (entriesRead (snd (fsys path)))"
  from scanDir_success [OF assms] obtain d where
    d: "out = Some d" "listView h' d = Some (qsort dlistCompare ?acc)" by auto
  have nf: "\<forall>k \<in> set (qsort dlistCompare ?acc). nulFree k"
    by (auto simp: set_qsort dest: kept_nulFree)
  have "sorted_wrt (\<lambda>a b. dlistCompare a b \<le> 0) (qsort dlistCompare ?acc)"
    by (rule sorted_dlistCompare) (auto dest: kept_nulFree)
  from sorted_two_key [OF nf this] d show ?thesis by auto
qed

theorem C5_scan_sorted_witness:
  "scanOutcome (scanDir ''sdmc:/'' ''.gba'' (Some 0) romDir (heapOf (replicate 5 (Grant 0))))
     = Inr (RES_OK, Some 2, [2, 3, 4, 5])
   \<and> scanView (scanDir ''sdmc:/'' ''.gba'' (Some 0) romDir (heapOf (replicate 5 (Grant 0))))
     = Some [(ENTRY_DIRECTORY, ''saves''), (ENTRY_FILE, ''a.gba''), (ENTRY_FILE, ''b.gba'')]
   \<and> dirsPrecedeFiles [(ENTRY_DIRECTORY, ''saves''), (ENTRY_FILE, ''a.gba''), (ENTRY_FILE, ''b.gba'')]
   \<and> namesAscend [(ENTRY_DIRECTORY, ''saves''), (ENTRY_FILE, ''a.gba''), (ENTRY_FILE, ''b.gba'')]"
proof -
  let ?r = "scanDir ''sdmc:/'' ''.gba'' (Some 0) romDir (heapOf (replicate 5 (Grant 0)))"
  have o: "scanOutcome ?r = Inr (RES_OK, Some 2, [2, 3, 4, 5])"
    and v: "scanView ?r = Some [(ENTRY_DIRECTORY, ''saves''), (ENTRY_FILE, ''a.gba''),
                               (ENTRY_FILE, ''b.gba'')]"
    by (rule romDir_scan)+
  from scan_result_cases [OF o] obtain h' where r: "?r = Inr (RES_OK, Some 2, h')" by blast
  from C5_scan_sorted [OF r] v show ?thesis
    using o by (auto simp: scanView_def r)
qed

text \<open>
  C6: the loop keeps an entry exactly when the admission rule holds of its kind and
  name under the filter: a directory always, a file when its name is longer than the
  filter, ends with the filter byte for byte and does not begin with a dot. When
  \<^verbatim>\<open>scanDir\<close> returns \<^verbatim>\<open>RES_OK\<close>, the list in the slot holds exactly the entries read
  that the rule admits, each as often as it was read.
\<close>

theorem C6_filter_admission:
  "(\<not> skipEntry flt fi \<longleftrightarrow> admitted (cstr flt) (entTypeOf fi) (cstr (fname fi)))
   \<and> (scanDir path flt dListOut fsys h = Inr (RES_OK, out, h') \<longrightarrow>
        (\<exists>d es. out = Some d \<and> listView h' d = Some es
           \<and> mset es = mset (filter (\<lambda>k. admitted (cstr flt) (fst k) (snd k))
                                 (map entryOf (entriesRead (snd (fsys path)))))))"
proof -
  have "\<exists>d es. out = Some d \<and> listView h' d = Some es
           \<and> mset es = mset (filter (\<lambda>k. admitted (cstr flt) (fst k) (snd k))
                                 (map entryOf (entriesRead (snd (fsys path)))))"
    if a: "scanDir path flt dListOut fsys h = Inr (RES_OK, out, h')"
    using scanDir_success [OF a] by (auto simp: mset_qsort kept_admitted)
  then show ?thesis using skipEntry_admitted [of flt fi] by blast
qed

theorem C6_filter_admission_witness:
  "scanOutcome (scanDir ''sdmc:/'' ''.gba'' (Some 0) romDir (heapOf (replicate 5 (Grant 0))))
     = Inr (RES_OK, Some 2, [2, 3, 4, 5])
   \<and> (\<exists>h' es. scanDir ''sdmc:/'' ''.gba'' (Some 0) romDir (heapOf (replicate 5 (Grant 0)))
                  = Inr (RES_OK, Some 2, h')
         \<and> listView h' 2 = Some es
         \<and> mset es = {#(ENTRY_FILE, ''b.gba''), (ENTRY_DIRECTORY, ''saves''), (ENTRY_FILE, ''a.gba'')#})
   \<and> \<not> skipEntry ''.gba'' \<lparr>fattrib = 0x20, fname = ''a.gba''\<rparr>
   \<and> admitted ''.gba'' ENTRY_FILE ''a.gba''
   \<and> skipEntry ''.gba'' \<lparr>fattrib = 0x20, fname = ''.x.gba''\<rparr>
   \<and> \<not> admitted ''.gba'' ENTRY_FILE ''.x.gba''
   \<and> \<not> admitted ''.gba'' ENTRY_FILE ''.gba''
   \<and> \<not> admitted ''.gba'' ENTRY_FILE ''c.txt''"
proof -
  let ?r = "scanDir ''sdmc:/'' ''.gba'' (Some 0) romDir (heapOf (replicate 5 (Grant 0)))"
  have o: "scanOutcome ?r = Inr (RES_OK, Some 2, [2, 3, 4, 5])"
    by (rule romDir_scan)
  from scan_result_cases [OF o] obtain h' where r: "?r = Inr (RES_OK, Some 2, h')" by blast
  have c: "cstr ''.gba'' = ''.gba''" "cstr ''a.gba'' = ''a.gba''" "cstr ''.x.gba'' = ''.x.gba''"
    "cstr ''b.gba'' = ''b.gba''" "cstr ''saves'' = ''saves''" "cstr ''c.txt'' = ''c.txt''"
    by (simp_all add: cstr_def NUL_def)
  have a: "admitted ''.gba'' ENTRY_FILE ''a.gba''" "\<not> admitted ''.gba'' ENTRY_FILE ''.x.gba''"
    "\<not> admitted ''.gba'' ENTRY_FILE ''.gba''" "\<not> admitted ''.gba'' ENTRY_FILE ''c.txt''"
    "admitted ''.gba'' ENTRY_FILE ''b.gba''" "admitted ''.gba'' ENTRY_DIRECTORY ''saves''"
    by (simp_all add: admitted_def)
  from C6_filter_admission [of "''.gba''" "\<lparr>fattrib = 0x20, fname = ''a.gba''\<rparr>"
      "''sdmc:/''" "Some 0" romDir "heapOf (replicate 5 (Grant 0))" "Some 2" h']
    C6_filter_admission [of "''.gba''" "\<lparr>fattrib = 0x20, fname = ''.x.gba''\<rparr>"
      "''sdmc:/''" "Some 0" romDir "heapOf (replicate 5 (Grant 0))" "Some 2" h']
  show ?thesis
    using o r a by (simp add: c romDir_def entryOf_def DIR_READ_BLOCKS_def)
qed

subsection \<open>Scans that run out of memory\<close>

lemma scanInv_dl:
  assumes "scanInv fis h d acc ps"
  obtains dl where "objs h d = Some (DList dl)" "derefList h d = Inr dl"
    "size_dl dl = length acc" "length acc \<le> capacity dl" "length (entries dl) = capacity dl"
    "take (length acc) (entries dl) = map2 mkEntry acc ps" "capOf h d = capacity dl"
  using assms
  by (auto simp: scanInv_def listShape_def sizeOf_def capOf_def derefList_def)

lemma scanInv_names:
  assumes "scanInv fis h d acc ps" "i < length acc"
  shows "ps ! i \<noteq> 0" "ps ! i \<le> brk h" "objs h (ps ! i) = Some (Str (snd (acc ! i)))"
    "ps ! i \<noteq> d" "ps ! i \<noteq> fis"
  using assms
  by (auto simp: scanInv_def listShape_def bufLive_def)

lemma scanInv_basic:
  assumes "scanInv fis h d acc ps"
  shows "fis \<noteq> 0" "fis \<le> brk h" "objs h fis = Some Fis" "d \<noteq> 0" "d \<le> brk h" "d \<noteq> fis"
    "length ps = length acc" "distinct ps"
  using assms
  by (auto simp: scanInv_def listShape_def bufLive_def)

lemma addEntry_granted:
  assumes inv: "scanInv fis h d acc ps" and room: "length acc < capOf h d"
    and gr: "grants h = Grant g # gs" and adm: "\<not> skipEntry flt fi"
  shows "\<exists>h1. addEntry flt fi h d (length acc) = Inr (Next (h1, d, Suc (length acc)))
           \<and> scanInv fis h1 d (acc @ [entryOf fi]) (ps @ [Suc (brk h)])
           \<and> grants h1 = gs \<and> capOf h1 d = capOf h d"
proof -
  from inv obtain dl where dl: "objs h d = Some (DList dl)" "derefList h d = Inr dl"
    "size_dl dl = length acc" "length (entries dl) = capacity dl" "capOf h d = capacity dl"
    by (rule scanInv_dl)
  note b = scanInv_basic [OF inv]
  have g: "growIfFull h d = Inr (d, h)" using dl room by (simp add: growIfFull_def)
  have sh: "bufLive fis h" "listShape h d acc ps" using inv by (simp_all add: scanInv_def)
  obtain h1 where st: "storeEntry fi h d (length acc) = Inr (Next (h1, d, Suc (length acc)))"
    and g1: "grants h1 = gs" and c1: "capOf h1 d = capOf h d"
    using dl room gr b
    by (auto simp: storeEntry_def fcramAlloc_def setEntry_def setSize_def derefList_def
        capOf_def Let_def)
  from storeEntry_Next [OF sh room st] st g1 c1 g adm b show ?thesis
    by (auto simp: addEntry_def)
qed

lemma scanBatch_granted:
  assumes "scanInv fis h d acc ps" and "length acc + length batch \<le> capOf h d"
    and "grants h = map Grant gl @ gs" and "length gl = length batch"
    and "\<forall>e \<in> set batch. \<not> skipEntry flt e"
  shows "\<exists>h1 ps1. scanBatch flt batch h d (length acc)
                     = Inr (Next (h1, d, length acc + length batch))
           \<and> scanInv fis h1 d (acc @ map entryOf batch) ps1
           \<and> grants h1 = gs \<and> capOf h1 d = capOf h d"
  using assms
proof (induction batch arbitrary: h acc ps gl)
  case Nil
  then show ?case by auto
next
  case (Cons fi batch)
  from Cons.prems(4) obtain g gl' where gl: "gl = g # gl'" "length gl' = length batch"
    by (cases gl) auto
  from Cons.prems have room: "length acc < capOf h d" by simp
  from Cons.prems(3) gl have gr: "grants h = Grant g # (map Grant gl' @ gs)" by simp
  from Cons.prems(5) have adm: "\<not> skipEntry flt fi" by simp
  from addEntry_granted [OF Cons.prems(1) room gr adm] obtain h1 where
    a: "addEntry flt fi h d (length acc) = Inr (Next (h1, d, Suc (length acc)))"
    and i1: "scanInv fis h1 d (acc @ [entryOf fi]) (ps @ [Suc (brk h)])"
    and g1: "grants h1 = map Grant gl' @ gs" and c1: "capOf h1 d = capOf h d"
    by auto
  have "length (acc @ [entryOf fi]) + length batch \<le> capOf h1 d"
    using Cons.prems(2) c1 by simp
  from Cons.IH [OF i1 this g1 gl(2)] Cons.prems(5) obtain h2 ps2 where
    "scanBatch flt batch h1 d (length (acc @ [entryOf fi]))
       = Inr (Next (h2, d, length (acc @ [entryOf fi]) + length batch))"
    "scanInv fis h2 d ((acc @ [entryOf fi]) @ map entryOf batch) ps2"
    "grants h2 = gs" "capOf h2 d = capOf h1 d"
    by auto
  with a c1 show ?case by auto
qed

lemma scanBatch_append:
  "scanBatch flt (xs @ ys) h d n =
     (case scanBatch flt xs h d n of
        Inl f \<Rightarrow> Inl f
      | Inr (Bail res h1 d1) \<Rightarrow> Inr (Bail res h1 d1)
      | Inr (Next (h1, d1, n1)) \<Rightarrow> scanBatch flt ys h1 d1 n1)"
  by (induction xs arbitrary: h d n) (auto split: sum.splits flow.splits)

lemma scanLoop_Bail_entries:
  "scanBatch flt (entriesRead rds) h d n = Inr (Bail res h' d')
   \<Longrightarrow> scanLoop flt rds h d n = Inr (Bail res h' d')"
proof (induction rds arbitrary: h d n)
  case Nil
  then show ?case by simp
next
  case (Cons r rds)
  obtain rr offer where r: "r = (rr, offer)" by (cases r)
  define batch where "batch = take DIR_READ_BLOCKS offer"
  show ?case
  proof (cases "rr \<noteq> RES_OK \<or> batch = []")
    case True
    with Cons.prems r show ?thesis by (auto simp: batch_def)
  next
    case False
    with Cons.prems r have
      b: "scanBatch flt (batch @ entriesRead rds) h d n = Inr (Bail res h' d')"
      by (simp add: batch_def)
    show ?thesis
    proof (cases "scanBatch flt batch h d n")
      case (Inl f)
      with b show ?thesis by (simp add: scanBatch_append)
    next
      case (Inr fl)
      show ?thesis
      proof (cases fl)
        case (Bail r1 h1 d1)
        with Inr b False r show ?thesis
          by (simp add: scanBatch_append fReadDir_def Let_def batch_def [symmetric])
      next
        case (Next t)
        obtain h1 d1 n1 where t: "t = (h1, d1, n1)" by (cases t)
        with Inr Next b have "scanBatch flt (entriesRead rds) h1 d1 n1 = Inr (Bail res h' d')"
          by (simp add: scanBatch_append)
        from Cons.IH [OF this] Inr Next t False r show ?thesis
          by (simp add: fReadDir_def Let_def batch_def [symmetric])
      qed
    qed
  qed
qed


lemma growth_denied:
  assumes inv: "scanInv fis h d acc ps" and full: "length acc = capOf h d"
    and deny: "grants h = Deny # gs" and adm: "\<not> skipEntry flt fi"
  shows "\<exists>h1. addEntry flt fi h d (length acc) = Inr (Bail RES_OUT_OF_MEM h1 0)
           \<and> bufLive fis h1 \<and> objs h1 d = None
           \<and> (\<forall>i<length acc. objs h1 (ps ! i) = Some (Str (snd (acc ! i))))"
proof -
  from inv obtain dl where dl: "objs h d = Some (DList dl)" "derefList h d = Inr dl"
    "size_dl dl = length acc" "length (entries dl) = capacity dl" "capOf h d = capacity dl"
    by (rule scanInv_dl)
  note b = scanInv_basic [OF inv]
  define h1 where "h1 = h\<lparr>grants := gs, objs := (objs h)(d := None)\<rparr>"
  have "dlistGrow d h = Inr (0, h1)"
    using dl deny b by (simp add: dlistGrow_def fcramAlloc_def fcramFree_def h1_def)
  then have "addEntry flt fi h d (length acc) = Inr (Bail RES_OUT_OF_MEM h1 0)"
    using dl full adm by (simp add: addEntry_def growIfFull_def)
  moreover have "bufLive fis h1" using b by (simp add: bufLive_def h1_def)
  moreover have "objs h1 d = None" by (simp add: h1_def)
  moreover have "\<forall>i<length acc. objs h1 (ps ! i) = Some (Str (snd (acc ! i)))"
    using scanInv_names [OF inv] by (simp add: h1_def)
  ultimately show ?thesis by blast
qed

lemma scan_start:
  assumes "grants h = Grant g1 # Grant g2 # gs"
  shows "\<exists>h2. fcramAlloc (\<lambda>_. Fis) h = (Suc (brk h), h\<lparr>objs := (objs h)(Suc (brk h) \<mapsto> Fis),
                   brk := Suc (brk h), grants := Grant g2 # gs\<rparr>)
           \<and> dlistNew (h\<lparr>objs := (objs h)(Suc (brk h) \<mapsto> Fis),
                   brk := Suc (brk h), grants := Grant g2 # gs\<rparr>) = (Suc (Suc (brk h)), h2)
           \<and> scanInv (Suc (brk h)) h2 (Suc (Suc (brk h))) [] []
           \<and> grants h2 = gs \<and> capOf h2 (Suc (Suc (brk h))) = DLIST_GROW_SIZE"
proof -
  let ?h1 = "h\<lparr>objs := (objs h)(Suc (brk h) \<mapsto> Fis), brk := Suc (brk h), grants := Grant g2 # gs\<rparr>"
  have al: "fcramAlloc (\<lambda>_. Fis) h = (Suc (brk h), ?h1)"
    using assms by (simp add: fcramAlloc_def)
  obtain h2 where nw: "dlistNew ?h1 = (Suc (Suc (brk h)), h2)" and g2: "grants h2 = gs"
    and c2: "capOf h2 (Suc (Suc (brk h))) = DLIST_GROW_SIZE"
    by (simp add: dlistNew_def fcramAlloc_def derefList_def rawList_def capOf_def)
  from scanInv_init [OF al _ nw] al nw g2 c2 show ?thesis by auto
qed

text \<open>
  C1 does not hold of the code. Take a directory whose first \<open>129\<close> entries read are
  all kept, scanned into an empty slot, with the allocator granting the read buffer,
  the list and \<open>128\<close> names and then denying the growth of the list. \<^verbatim>\<open>dlistGrow\<close>
  frees the block of the old list only and returns \<^verbatim>\<open>NULL\<close>, which overwrites the one
  pointer to the list: the read loop is left for \<^verbatim>\<open>bail\<close> with a null list pointer and
  the \<open>128\<close> names still allocated, and \<^verbatim>\<open>bail\<close> calls \<^verbatim>\<open>dlistFree(NULL)\<close>, which
  reads through the null pointer. The call does not return \<^verbatim>\<open>RES_OUT_OF_MEM\<close>.
\<close>

theorem C1_growth_failure:
  assumes op: "fst (fsys path) = RES_OK"
    and rd: "entriesRead (snd (fsys path)) = batch @ fi # rest"
    and len: "length batch = DLIST_GROW_SIZE"
    and adm: "\<forall>e \<in> set (batch @ [fi]). \<not> skipEntry flt e"
    and gr: "grants h = Grant g1 # Grant g2 # map Grant gl @ Deny # gs"
    and gl: "length gl = DLIST_GROW_SIZE"
  shows "scanDir path flt (Some 0) fsys h = Inl NullDeref
         \<and> (\<exists>h4 ps. scanLoop flt (snd (fsys path))
                         (snd (dlistNew (snd (fcramAlloc (\<lambda>_. Fis) h))))
                         (fst (dlistNew (snd (fcramAlloc (\<lambda>_. Fis) h)))) 0
                       = Inr (Bail RES_OUT_OF_MEM h4 0)
                \<and> length ps = DLIST_GROW_SIZE \<and> distinct ps
                \<and> (\<forall>i<DLIST_GROW_SIZE.
                       objs h4 (ps ! i) = Some (Str (cstr (fname (batch ! i))))))"
proof -
  let ?fis = "Suc (brk h)" and ?d = "Suc (Suc (brk h))"
  from scan_start [OF gr] obtain h1 h2 where
    al: "fcramAlloc (\<lambda>_. Fis) h = (?fis, h1)" and nw: "dlistNew h1 = (?d, h2)"
    and i2: "scanInv ?fis h2 ?d [] []" and g2: "grants h2 = map Grant gl @ Deny # gs"
    and c2: "capOf h2 ?d = DLIST_GROW_SIZE"
    by blast
  have "length ([] :: (DirEntryType \<times> string) list) + length batch \<le> capOf h2 ?d"
    using len c2 by simp
  moreover have "length gl = length batch" using gl len by simp
  moreover have "\<forall>e \<in> set batch. \<not> skipEntry flt e" using adm by simp
  ultimately have "\<exists>h3 ps3. scanBatch flt batch h2 ?d (length ([] :: (DirEntryType \<times> string) list))
                      = Inr (Next (h3, ?d, length ([] :: (DirEntryType \<times> string) list) + length batch))
           \<and> scanInv ?fis h3 ?d ([] @ map entryOf batch) ps3
           \<and> grants h3 = Deny # gs \<and> capOf h3 ?d = capOf h2 ?d"
    by (rule scanBatch_granted [OF i2 _ g2])
  then obtain h3 ps3 where
    b3: "scanBatch flt batch h2 ?d 0 = Inr (Next (h3, ?d, length batch))"
    and i3: "scanInv ?fis h3 ?d (map entryOf batch) ps3"
    and g3: "grants h3 = Deny # gs" and c3: "capOf h3 ?d = capOf h2 ?d"
    by auto
  have full: "length (map entryOf batch) = capOf h3 ?d" using len c2 c3 by simp
  from adm have afi: "\<not> skipEntry flt fi" by simp
  from growth_denied [OF i3 full g3 afi] obtain h4 where
    a4: "addEntry flt fi h3 ?d (length batch) = Inr (Bail RES_OUT_OF_MEM h4 0)"
    and f4: "bufLive ?fis h4"
    and n4: "\<forall>i<length (map entryOf batch).
               objs h4 (ps3 ! i) = Some (Str (snd (map entryOf batch ! i)))"
    by auto
  have "scanBatch flt (batch @ fi # rest) h2 ?d 0 = Inr (Bail RES_OUT_OF_MEM h4 0)"
    using b3 a4 by (simp add: scanBatch_append)
  then have lp: "scanLoop flt (snd (fsys path)) h2 ?d 0 = Inr (Bail RES_OUT_OF_MEM h4 0)"
    using rd by (simp add: scanLoop_Bail_entries)
  obtain h5 where fr: "fcramFree ?fis h4 = Inr h5"
    using f4 by (auto simp: bufLive_def fcramFree_def)
  have "dlistFree 0 h5 = Inl NullDeref" by (simp add: dlistFree_def derefList_def)
  with al nw lp fr op have 1: "scanDir path flt (Some 0) fsys h = Inl NullDeref"
    by (simp add: scanDir_def fOpenDir_def)
  have 2: "scanLoop flt (snd (fsys path))
             (snd (dlistNew (snd (fcramAlloc (\<lambda>_. Fis) h))))
             (fst (dlistNew (snd (fcramAlloc (\<lambda>_. Fis) h)))) 0
           = Inr (Bail RES_OUT_OF_MEM h4 0)"
    using lp by (simp add: al nw)
  have 3: "length ps3 = DLIST_GROW_SIZE" "distinct ps3"
    using scanInv_basic(7,8) [OF i3] len by simp_all
  have 4: "\<forall>i<DLIST_GROW_SIZE. objs h4 (ps3 ! i) = Some (Str (cstr (fname (batch ! i))))"
    using n4 len by (simp add: entryOf_def)
  from 1 2 3 4 show ?thesis by blast
qed

lemma keep_dir: "\<not> skipEntry flt \<lparr>fattrib = 0x10, fname = n\<rparr>"
  by (simp add: skipEntry_def Let_def)

lemma entriesRead_replicate:
  assumes "b \<noteq> []" and "length b \<le> DIR_READ_BLOCKS"
  shows "entriesRead (replicate n (RES_OK, b) @ rs) = concat (replicate n b) @ entriesRead rs"
  using assms by (induction n) auto

lemma concat_replicate_replicate:
  "concat (replicate n (replicate m x)) = replicate (n * m) x"
  by (induction n) (auto simp: replicate_add)

lemma bigDir_entries:
  "fst (bigDir path) = RES_OK"
  "entriesRead (snd (bigDir path))
     = replicate DLIST_GROW_SIZE \<lparr>fattrib = 0x10, fname = ''d''\<rparr>
       @ \<lparr>fattrib = 0x10, fname = ''d''\<rparr> # []"
proof -
  let ?e = "\<lparr>fattrib = 0x10, fname = ''d''\<rparr>"
  show "fst (bigDir path) = RES_OK" by (simp add: bigDir_def)
  have "entriesRead (snd (bigDir path))
        = concat (replicate 12 (replicate DIR_READ_BLOCKS ?e))
          @ entriesRead [(RES_OK, replicate 9 ?e)]"
    unfolding bigDir_def snd_conv
    by (rule entriesRead_replicate) (simp_all add: DIR_READ_BLOCKS_def)
  also have "\<dots> = replicate (12 * DIR_READ_BLOCKS) ?e @ replicate 9 ?e"
    by (simp add: concat_replicate_replicate DIR_READ_BLOCKS_def)
  also have "\<dots> = replicate (Suc DLIST_GROW_SIZE) ?e"
    by (simp add: replicate_add [symmetric] DIR_READ_BLOCKS_def DLIST_GROW_SIZE_def)
  also have "\<dots> = replicate DLIST_GROW_SIZE ?e @ ?e # []"
    by (simp add: replicate_append_same)
  finally show "entriesRead (snd (bigDir path)) = replicate DLIST_GROW_SIZE ?e @ ?e # []" .
qed

theorem C1_growth_failure_witness:
  "scanDir ''sdmc:/'' ''.gba'' (Some 0) bigDir
     (heapOf (Grant 0 # Grant 0 # map Grant (replicate DLIST_GROW_SIZE 0) @ [Deny]))
   = Inl NullDeref
   \<and> (\<exists>h4 ps. scanLoop ''.gba'' (snd (bigDir ''sdmc:/''))
         (snd (dlistNew (snd (fcramAlloc (\<lambda>_. Fis)
            (heapOf (Grant 0 # Grant 0 # map Grant (replicate DLIST_GROW_SIZE 0) @ [Deny]))))))
         (fst (dlistNew (snd (fcramAlloc (\<lambda>_. Fis)
            (heapOf (Grant 0 # Grant 0 # map Grant (replicate DLIST_GROW_SIZE 0) @ [Deny]))))))
         0
        = Inr (Bail RES_OUT_OF_MEM h4 0)
      \<and> length ps = DLIST_GROW_SIZE \<and> distinct ps
      \<and> objs h4 (ps ! 0) = Some (Str ''d'') \<and> objs h4 (ps ! 127) = Some (Str ''d''))"
proof -
  let ?e = "\<lparr>fattrib = 0x10, fname = ''d''\<rparr>"
  let ?hp = "heapOf (Grant 0 # Grant 0 # map Grant (replicate DLIST_GROW_SIZE 0) @ [Deny])"
  have 1: "fst (bigDir ''sdmc:/'') = RES_OK" by (rule bigDir_entries)
  have 2: "entriesRead (snd (bigDir ''sdmc:/'')) = replicate DLIST_GROW_SIZE ?e @ ?e # []"
    by (rule bigDir_entries)
  have 3: "length (replicate DLIST_GROW_SIZE ?e) = DLIST_GROW_SIZE" by simp
  have 4: "\<forall>e\<in>set (replicate DLIST_GROW_SIZE ?e @ [?e]). \<not> skipEntry ''.gba'' e"
    by (auto simp: keep_dir)
  have 5: "grants ?hp
        = Grant 0 # Grant 0 # map Grant (replicate DLIST_GROW_SIZE 0) @ Deny # []"
    by (simp add: heapOf_def)
  have 6: "length (replicate DLIST_GROW_SIZE (0::nat)) = DLIST_GROW_SIZE" by simp
  from C1_growth_failure [where fsys = bigDir and path = "''sdmc:/''" and flt = "''.gba''"
      and batch = "replicate DLIST_GROW_SIZE ?e" and fi = ?e and rest = "[]"
      and gl = "replicate DLIST_GROW_SIZE 0" and gs = "[]" and ?g1.0 = 0 and ?g2.0 = 0
      and h = ?hp, OF 1 2 3 4 5 6]
  obtain h4 ps where
    r: "scanDir ''sdmc:/'' ''.gba'' (Some 0) bigDir ?hp = Inl NullDeref"
    and l: "scanLoop ''.gba'' (snd (bigDir ''sdmc:/''))
              (snd (dlistNew (snd (fcramAlloc (\<lambda>_. Fis) ?hp))))
              (fst (dlistNew (snd (fcramAlloc (\<lambda>_. Fis) ?hp)))) 0
            = Inr (Bail RES_OUT_OF_MEM h4 0)"
    and p: "length ps = DLIST_GROW_SIZE" "distinct ps"
    and n: "\<forall>i<DLIST_GROW_SIZE.
              objs h4 (ps ! i) = Some (Str (cstr (fname (replicate DLIST_GROW_SIZE ?e ! i))))"
    by blast
  have c: "cstr ''d'' = ''d''" by (simp add: cstr_def NUL_def)
  from n have "objs h4 (ps ! 0) = Some (Str ''d'')" "objs h4 (ps ! 127) = Some (Str ''d'')"
    by (simp_all add: DLIST_GROW_SIZE_def c)
  with r l p show ?thesis by blast
qed

lemma grow_then_denied:
  assumes inv: "scanInv fis h d acc ps" and full: "length acc = capOf h d"
    and gr: "grants h = Grant g # Deny # gs" and adm: "\<not> skipEntry flt fi"
  shows "\<exists>h1 d1 dl1. addEntry flt fi h d (length acc) = Inr (Bail RES_OUT_OF_MEM h1 d1)
           \<and> d1 \<noteq> 0 \<and> d1 \<noteq> fis \<and> d1 \<notin> set ps \<and> bufLive fis h1
           \<and> objs h1 d1 = Some (DList dl1) \<and> size_dl dl1 = g
           \<and> length acc < length (entries dl1)
           \<and> take (length acc) (entries dl1) = map2 mkEntry acc ps
           \<and> (\<forall>i<length acc. objs h1 (ps ! i) = Some (Str (snd (acc ! i))))"
proof -
  from inv obtain dl where dl: "objs h d = Some (DList dl)" "derefList h d = Inr dl"
    "size_dl dl = length acc" "length (entries dl) = capacity dl" "capOf h d = capacity dl"
    "take (length acc) (entries dl) = map2 mkEntry acc ps"
    by (rule scanInv_dl)
  note b = scanInv_basic [OF inv]
  note nm = scanInv_names [OF inv]
  define n where "n = length acc"
  define d1 where "d1 = Suc (brk h)"
  define es where "es = take n (entries dl) @ drop n (replicate (capacity dl + DLIST_GROW_SIZE) indet)"
  define dl1 where "dl1 = \<lparr>capacity = capacity dl + DLIST_GROW_SIZE, size_dl = g,
                           entries = es[n := (es ! n)\<lparr>name := Some 0\<rparr>]\<rparr>"
  define ha where "ha = h\<lparr>objs := ((objs h)(d1 \<mapsto> DList \<lparr>capacity = capacity dl + DLIST_GROW_SIZE,
                     size_dl = g, entries = es\<rparr>))(d := None), brk := d1, grants := Deny # gs\<rparr>"
  define h1 where "h1 = ha\<lparr>grants := gs, objs := (objs ha)(d1 \<mapsto> DList dl1)\<rparr>"
  have d1d: "d1 \<noteq> d" "d1 \<noteq> fis" "d1 \<noteq> 0" using b by (simp_all add: d1_def)
  have d1ps: "d1 \<notin> set ps"
  proof
    assume "d1 \<in> set ps"
    then obtain i where "i < length ps" "ps ! i = d1" by (auto simp: in_set_conv_nth)
    with nm(2) [of i] b show False by (simp add: d1_def)
  qed
  have fullc: "n = capacity dl" using full dl by (simp add: n_def)
  have les: "length es = capacity dl + DLIST_GROW_SIZE" "n < length es"
    using dl fullc by (simp_all add: es_def DLIST_GROW_SIZE_def)
  have gw: "dlistGrow d h = Inr (d1, ha)"
    using dl gr b d1d fullc
    by (simp add: dlistGrow_def fcramAlloc_def fcramFree_def derefList_def rawList_def
        Let_def ha_def es_def d1_def n_def DLIST_GROW_SIZE_def)
  have st: "storeEntry fi ha d1 n = Inr (Bail RES_OUT_OF_MEM h1 d1)"
    using d1d les
    by (simp add: storeEntry_def fcramAlloc_def setEntry_def derefList_def ha_def h1_def
        dl1_def Let_def)
  have "addEntry flt fi h d (length acc) = Inr (Bail RES_OUT_OF_MEM h1 d1)"
    using gw st adm dl fullc d1d by (simp add: addEntry_def growIfFull_def n_def)
  moreover have "bufLive fis h1" using b d1d by (simp add: bufLive_def h1_def ha_def d1_def)
  moreover have "objs h1 d1 = Some (DList dl1)" "size_dl dl1 = g"
    by (simp_all add: h1_def dl1_def)
  moreover have "length acc < length (entries dl1)" using les by (simp add: dl1_def n_def)
  moreover have "take (length acc) (entries dl1) = map2 mkEntry acc ps"
    using dl fullc by (simp add: dl1_def es_def n_def)
  moreover have "\<forall>i<length acc. objs h1 (ps ! i) = Some (Str (snd (acc ! i)))"
  proof (intro allI impI)
    fix i assume i: "i < length acc"
    then have "ps ! i \<in> set ps" using b by simp
    with d1ps have "ps ! i \<noteq> d1" by auto
    with nm(3,4) [OF i] show "objs h1 (ps ! i) = Some (Str (snd (acc ! i)))"
      by (simp add: h1_def ha_def)
  qed
  ultimately show ?thesis using d1d d1ps by blast
qed

lemma freeNames_ok:
  assumes "length ks = length qs" and "distinct qs"
    and "\<forall>q \<in> set qs. q \<noteq> 0 \<and> objs h q \<noteq> None"
  shows "\<exists>h'. freeNames (map2 mkEntry ks qs) h = Inr h'
           \<and> objs h' = (\<lambda>a. if a \<in> set qs then None else objs h a)"
  using assms
proof (induction qs arbitrary: ks h)
  case Nil
  then show ?case by simp
next
  case (Cons q qs)
  from Cons.prems(1) obtain k ks' where ks: "ks = k # ks'" "length ks' = length qs"
    by (cases ks) auto
  define h1 where "h1 = h\<lparr>objs := (objs h)(q := None)\<rparr>"
  have fr: "fcramFree q h = Inr h1" using Cons.prems(3) by (auto simp: fcramFree_def h1_def)
  have "\<forall>p \<in> set qs. p \<noteq> 0 \<and> objs h1 p \<noteq> None"
    using Cons.prems(2,3) by (auto simp: h1_def)
  from Cons.IH [OF ks(2) _ this] Cons.prems(2) obtain h' where
    "freeNames (map2 mkEntry ks' qs) h1 = Inr h'"
    "objs h' = (\<lambda>a. if a \<in> set qs then None else objs h1 a)"
    by auto
  with fr ks show ?case by (auto simp: mkEntry_def h1_def)
qed

text \<open>
  C10 does not hold of the code. \<^verbatim>\<open>dlistGrow\<close> sets the capacity of the new block and
  copies the entries, but never writes its \<^verbatim>\<open>size\<close>: until line 156 sets it after the
  next name, the size is whatever the fresh block held (\<open>g\<close> below). When the growth
  is granted and the allocation of the next name is denied, \<^verbatim>\<open>bail\<close> releases the list
  with that size: for \<open>g \<le> 128\<close> the call returns \<^verbatim>\<open>RES_OUT_OF_MEM\<close> and the names of
  the entries \<open>g, ..., 127\<close> are still allocated.
\<close>

theorem C10_size_after_growth:
  assumes op: "fst (fsys path) = RES_OK"
    and rd: "entriesRead (snd (fsys path)) = batch @ fi # rest"
    and len: "length batch = DLIST_GROW_SIZE"
    and adm: "\<forall>e \<in> set (batch @ [fi]). \<not> skipEntry flt e"
    and gr: "grants h = Grant g1 # Grant g2 # map Grant gl @ Grant g # Deny # gs"
    and gl: "length gl = DLIST_GROW_SIZE"
    and g: "g \<le> DLIST_GROW_SIZE"
  shows "\<exists>h' ps. scanDir path flt (Some 0) fsys h = Inr (RES_OUT_OF_MEM, Some 0, h')
           \<and> length ps = DLIST_GROW_SIZE \<and> distinct ps
           \<and> (\<forall>i. g \<le> i \<and> i < DLIST_GROW_SIZE
                 \<longrightarrow> objs h' (ps ! i) = Some (Str (cstr (fname (batch ! i)))))"
proof -
  let ?fis = "Suc (brk h)" and ?d = "Suc (Suc (brk h))"
  from scan_start [OF gr] obtain h1 h2 where
    al: "fcramAlloc (\<lambda>_. Fis) h = (?fis, h1)" and nw: "dlistNew h1 = (?d, h2)"
    and i2: "scanInv ?fis h2 ?d [] []" and g2: "grants h2 = map Grant gl @ Grant g # Deny # gs"
    and c2: "capOf h2 ?d = DLIST_GROW_SIZE"
    by blast
  have "length ([] :: (DirEntryType \<times> string) list) + length batch \<le> capOf h2 ?d"
    using len c2 by simp
  moreover have "length gl = length batch" using gl len by simp
  moreover have "\<forall>e \<in> set batch. \<not> skipEntry flt e" using adm by simp
  ultimately have "\<exists>h3 ps3. scanBatch flt batch h2 ?d (length ([] :: (DirEntryType \<times> string) list))
                      = Inr (Next (h3, ?d, length ([] :: (DirEntryType \<times> string) list) + length batch))
           \<and> scanInv ?fis h3 ?d ([] @ map entryOf batch) ps3
           \<and> grants h3 = Grant g # Deny # gs \<and> capOf h3 ?d = capOf h2 ?d"
    by (rule scanBatch_granted [OF i2 _ g2])
  then obtain h3 ps where
    b3: "scanBatch flt batch h2 ?d 0 = Inr (Next (h3, ?d, length batch))"
    and i3: "scanInv ?fis h3 ?d (map entryOf batch) ps"
    and g3: "grants h3 = Grant g # Deny # gs" and c3: "capOf h3 ?d = capOf h2 ?d"
    by auto
  let ?acc = "map entryOf batch"
  have full: "length ?acc = capOf h3 ?d" using len c2 c3 by simp
  from adm have afi: "\<not> skipEntry flt fi" by simp
  note b = scanInv_basic [OF i3]
  from grow_then_denied [OF i3 full g3 afi] obtain h4 d1 dl1 where
    a4: "addEntry flt fi h3 ?d (length batch) = Inr (Bail RES_OUT_OF_MEM h4 d1)"
    and d1: "d1 \<noteq> 0" "d1 \<noteq> ?fis" "d1 \<notin> set ps" and f4: "bufLive ?fis h4"
    and l4: "objs h4 d1 = Some (DList dl1)" "size_dl dl1 = g"
      "length ?acc < length (entries dl1)"
      "take (length ?acc) (entries dl1) = map2 mkEntry ?acc ps"
    and n4: "\<forall>i<length ?acc. objs h4 (ps ! i) = Some (Str (snd (?acc ! i)))"
    by auto
  have "scanBatch flt (batch @ fi # rest) h2 ?d 0 = Inr (Bail RES_OUT_OF_MEM h4 d1)"
    using b3 a4 by (simp add: scanBatch_append)
  then have lp: "scanLoop flt (snd (fsys path)) h2 ?d 0 = Inr (Bail RES_OUT_OF_MEM h4 d1)"
    using rd by (simp add: scanLoop_Bail_entries)
  define h5 where "h5 = h4\<lparr>objs := (objs h4)(?fis := None)\<rparr>"
  have fr: "fcramFree ?fis h4 = Inr h5"
    using f4 by (auto simp: bufLive_def fcramFree_def h5_def)
  have psf: "?fis \<notin> set ps"
  proof
    assume "?fis \<in> set ps"
    then obtain i where "i < length ps" "ps ! i = ?fis" by (auto simp: in_set_conv_nth)
    with scanInv_names(5) [OF i3, of i] b show False by simp
  qed
  have der: "derefList h5 d1 = Inr dl1" using l4 d1 by (simp add: derefList_def h5_def)
  have gle: "g \<le> length ?acc" using g len by simp
  have tk: "take (size_dl dl1) (entries dl1) = map2 mkEntry (take g ?acc) (take g ps)"
  proof -
    have "take g (entries dl1) = take g (take (length ?acc) (entries dl1))"
      using gle by (simp add: min_absorb1)
    also have "\<dots> = take g (map2 mkEntry ?acc ps)" by (simp only: l4(4))
    also have "\<dots> = map2 mkEntry (take g ?acc) (take g ps)"
      by (simp add: take_map take_zip)
    finally show ?thesis using l4(2) by simp
  qed
  have live5: "\<forall>q \<in> set (take g ps). q \<noteq> 0 \<and> objs h5 q \<noteq> None"
  proof
    fix q assume q: "q \<in> set (take g ps)"
    then have qs: "q \<in> set ps" by (rule in_set_takeD)
    then obtain i where i: "i < length ?acc" "ps ! i = q"
      using b by (auto simp: in_set_conv_nth)
    from n4 i scanInv_names(1) [OF i3, of i] qs psf show "q \<noteq> 0 \<and> objs h5 q \<noteq> None"
      by (auto simp: h5_def)
  qed
  have "length (take g ?acc) = length (take g ps)" using b by simp
  from freeNames_ok [OF this _ live5] b obtain h6 where
    fn: "freeNames (map2 mkEntry (take g ?acc) (take g ps)) h5 = Inr h6"
    and o6: "objs h6 = (\<lambda>a. if a \<in> set (take g ps) then None else objs h5 a)"
    by auto
  have d1t: "d1 \<notin> set (take g ps)" using d1 by (auto dest: in_set_takeD)
  define h7 where "h7 = h6\<lparr>objs := (objs h6)(d1 := None)\<rparr>"
  have "fcramFree d1 h6 = Inr h7"
    using d1 d1t l4 by (simp add: fcramFree_def o6 h5_def h7_def)
  then have df: "dlistFree d1 h5 = Inr h7"
    using der tk fn l4 gle by (simp add: dlistFree_def)
  have res: "scanDir path flt (Some 0) fsys h = Inr (RES_OUT_OF_MEM, Some 0, h7)"
    using al nw lp fr df op by (simp add: scanDir_def fOpenDir_def)
  have leak: "\<forall>i. g \<le> i \<and> i < DLIST_GROW_SIZE
                 \<longrightarrow> objs h7 (ps ! i) = Some (Str (cstr (fname (batch ! i))))"
  proof (intro allI impI)
    fix i assume i: "g \<le> i \<and> i < DLIST_GROW_SIZE"
    then have il: "i < length ?acc" using len by simp
    then have ip: "ps ! i \<in> set ps" using b by simp
    have "ps ! i \<notin> set (take g ps)"
    proof
      assume "ps ! i \<in> set (take g ps)"
      then obtain j where j: "j < length (take g ps)" "take g ps ! j = ps ! i"
        by (auto simp: in_set_conv_nth)
      then have "j < g" "j < length ps" "ps ! j = ps ! i" by simp_all
      with b(8) il b(7) have "j = i" by (simp add: nth_eq_iff_index_eq)
      with \<open>j < g\<close> i show False by simp
    qed
    moreover have "ps ! i \<noteq> d1" "ps ! i \<noteq> ?fis" using ip d1 psf by auto
    ultimately show "objs h7 (ps ! i) = Some (Str (cstr (fname (batch ! i))))"
      using n4 il len by (simp add: h7_def o6 h5_def entryOf_def)
  qed
  from res leak b len show ?thesis by auto
qed

theorem C10_size_after_growth_witness:
  "\<exists>h' ps. scanDir ''sdmc:/'' ''.gba'' (Some 0) bigDir
              (heapOf (Grant 0 # Grant 0 # map Grant (replicate DLIST_GROW_SIZE 0)
                       @ [Grant 0, Deny]))
            = Inr (RES_OUT_OF_MEM, Some 0, h')
     \<and> length ps = DLIST_GROW_SIZE \<and> distinct ps
     \<and> objs h' (ps ! 0) = Some (Str ''d'') \<and> objs h' (ps ! 127) = Some (Str ''d'')"
proof -
  let ?e = "\<lparr>fattrib = 0x10, fname = ''d''\<rparr>"
  have 1: "fst (bigDir ''sdmc:/'') = RES_OK" by (rule bigDir_entries)
  have 2: "entriesRead (snd (bigDir ''sdmc:/'')) = replicate DLIST_GROW_SIZE ?e @ ?e # []"
    by (rule bigDir_entries)
  have 3: "length (replicate DLIST_GROW_SIZE ?e) = DLIST_GROW_SIZE" by simp
  have 4: "\<forall>e\<in>set (replicate DLIST_GROW_SIZE ?e @ [?e]). \<not> skipEntry ''.gba'' e"
    by (auto simp: keep_dir)
  have 5: "grants (heapOf (Grant 0 # Grant 0 # map Grant (replicate DLIST_GROW_SIZE 0)
                       @ [Grant 0, Deny]))
        = Grant 0 # Grant 0 # map Grant (replicate DLIST_GROW_SIZE 0) @ Grant 0 # Deny # []"
    by (simp add: heapOf_def)
  have 6: "length (replicate DLIST_GROW_SIZE (0::nat)) = DLIST_GROW_SIZE" by simp
  have 7: "(0::nat) \<le> DLIST_GROW_SIZE" by simp
  from C10_size_after_growth [where fsys = bigDir and path = "''sdmc:/''" and flt = "''.gba''"
      and batch = "replicate DLIST_GROW_SIZE ?e" and fi = ?e and rest = "[]" and g = 0
      and gl = "replicate DLIST_GROW_SIZE 0" and gs = "[]" and ?g1.0 = 0 and ?g2.0 = 0,
      OF 1 2 3 4 5 6 7]
  obtain h' ps where
    r: "scanDir ''sdmc:/'' ''.gba'' (Some 0) bigDir
              (heapOf (Grant 0 # Grant 0 # map Grant (replicate DLIST_GROW_SIZE 0)
                       @ [Grant 0, Deny]))
            = Inr (RES_OUT_OF_MEM, Some 0, h')"
    and p: "length ps = DLIST_GROW_SIZE" "distinct ps"
    and l: "\<forall>i. 0 \<le> i \<and> i < DLIST_GROW_SIZE
              \<longrightarrow> objs h' (ps ! i) = Some (Str (cstr (fname (replicate DLIST_GROW_SIZE ?e ! i))))"
    by blast
  have c: "cstr ''d'' = ''d''" by (simp add: cstr_def NUL_def)
  from l have "objs h' (ps ! 0) = Some (Str ''d'')" "objs h' (ps ! 127) = Some (Str ''d'')"
    by (simp_all add: DLIST_GROW_SIZE_def c)
  with r p show ?thesis by blast
qed

text \<open>
  C2 does not hold of the code. Line 112 frees the block of the previous list with
  \<^verbatim>\<open>fcramFree\<close>, not the list with \<^verbatim>\<open>dlistFree\<close>: its names stay allocated. First
  case: a scan of the example directory leaves the list at address \<open>2\<close> with names at
  \<open>3\<close>, \<open>4\<close>, \<open>5\<close>; a second, successful scan into the same slot leaves the three names
  allocated beside the new list. Second case: when the second scan cannot allocate
  its read buffer it returns \<^verbatim>\<open>RES_OUT_OF_MEM\<close> with the slot still holding \<open>2\<close>, the
  block it has just freed, and the release at \<^verbatim>\<open>end\<close> of \<^verbatim>\<open>browseFiles\<close> reads it.
\<close>

theorem C2_previous_list_not_released:
  "(case rescan ''sdmc:/'' 0 romDir (heapOf (replicate 10 (Grant 0))) of
      Inl f \<Rightarrow> False
    | Inr (res, dList, h) \<Rightarrow>
        res = RES_OK \<and> dList = 2 \<and> live h = [2, 3, 4, 5]
        \<and> scanOutcome (scanDir ''sdmc:/'' ''.gba'' (Some dList) romDir h)
            = Inr (RES_OK, Some 7, [3, 4, 5, 7, 8, 9, 10]))
   \<and> (case rescan ''sdmc:/'' 0 romDir (heapOf (replicate 5 (Grant 0))) of
      Inl f \<Rightarrow> False
    | Inr (res, dList, h) \<Rightarrow>
        res = RES_OK \<and> dList = 2 \<and> live h = [2, 3, 4, 5]
        \<and> scanOutcome (scanDir ''sdmc:/'' ''.gba'' (Some dList) romDir h)
            = Inr (RES_OUT_OF_MEM, Some 2, [3, 4, 5])
        \<and> (case rescan ''sdmc:/'' dList romDir h of
              Inl f \<Rightarrow> f = BadAccess
            | Inr r \<Rightarrow> False))"
  by (simp cong: eval_cong add: eval_defs rescan_def romDir_def eval_nat_numeral)

subsection \<open>Scans that are granted their memory\<close>

lemma storeEntry_granted:
  assumes bl: "bufLive fis h" and sh: "listShape h d acc ps" and room: "length acc < capOf h d"
    and gr: "grants h = Grant g # gs"
  shows "\<exists>h1. storeEntry fi h d (length acc) = Inr (Next (h1, d, Suc (length acc)))
           \<and> scanInv fis h1 d (acc @ [entryOf fi]) (ps @ [Suc (brk h)]) \<and> grants h1 = gs"
proof -
  from sh room obtain dl where dl: "objs h d = Some (DList dl)" "length acc < capacity dl"
      "length (entries dl) = capacity dl" and d: "d \<noteq> 0" "d \<le> brk h"
    by (auto simp: listShape_def capOf_def)
  obtain h1 where st: "storeEntry fi h d (length acc) = Inr (Next (h1, d, Suc (length acc)))"
    and g1: "grants h1 = gs"
    using dl gr d
    by (auto simp: storeEntry_def fcramAlloc_def setEntry_def setSize_def derefList_def Let_def)
  from storeEntry_Next [OF bl sh room st] st g1 show ?thesis by auto
qed

lemma dlistGrow_granted:
  assumes inv: "scanInv fis h d acc ps" and gr: "grants h = Grant g # gs"
  shows "\<exists>h1. dlistGrow d h = Inr (Suc (brk h), h1) \<and> grants h1 = gs"
proof -
  from inv obtain dl where dl: "objs h d = Some (DList dl)" "derefList h d = Inr dl"
    "size_dl dl = length acc" "length acc \<le> capacity dl" "length (entries dl) = capacity dl"
    by (rule scanInv_dl)
  note b = scanInv_basic [OF inv]
  show ?thesis
    using dl gr b
    by (auto simp: dlistGrow_def fcramAlloc_def fcramFree_def derefList_def rawList_def Let_def)
qed

lemma addEntry_total:
  assumes inv: "scanInv fis h d acc ps" and gr: "grants h = map Grant gl" and len: "2 \<le> length gl"
  shows "\<exists>h1 d1 ps1 gl1. addEntry flt fi h d (length acc)
                            = Inr (Next (h1, d1, length (acc @ kept flt [fi])))
           \<and> scanInv fis h1 d1 (acc @ kept flt [fi]) ps1
           \<and> grants h1 = map Grant gl1 \<and> length gl \<le> length gl1 + 2"
proof (cases "skipEntry flt fi")
  case True
  with inv gr show ?thesis by (auto simp: addEntry_def kept_def)
next
  case False
  from len obtain g g' gl' where gl: "gl = g # g' # gl'"
    by (cases gl; cases "tl gl") auto
  from inv obtain dl where dl: "objs h d = Some (DList dl)" "derefList h d = Inr dl"
    "size_dl dl = length acc" "length acc \<le> capacity dl" "capOf h d = capacity dl"
    by (rule scanInv_dl)
  show ?thesis
  proof (cases "size_dl dl = capacity dl")
    case full: True
    from dlistGrow_granted [OF inv, of g "map Grant (g' # gl')"] gr gl obtain h1 where
      gw: "dlistGrow d h = Inr (Suc (brk h), h1)" and g1: "grants h1 = Grant g' # map Grant gl'"
      by auto
    then have gf: "growIfFull h d = Inr (Suc (brk h), h1)"
      using dl full by (simp add: growIfFull_def)
    from growIfFull_Next [OF inv gf] have
      s1: "bufLive fis h1" "listShape h1 (Suc (brk h)) acc ps" "length acc < capOf h1 (Suc (brk h))"
      by auto
    from storeEntry_granted [OF s1 g1, of fi] obtain h2 where
      st: "storeEntry fi h1 (Suc (brk h)) (length acc)
             = Inr (Next (h2, Suc (brk h), Suc (length acc)))"
      and i2: "scanInv fis h2 (Suc (brk h)) (acc @ [entryOf fi]) (ps @ [Suc (brk h1)])"
      and g2: "grants h2 = map Grant gl'"
      by auto
    have "addEntry flt fi h d (length acc)
            = Inr (Next (h2, Suc (brk h), length (acc @ kept flt [fi])))"
      using gf st False by (simp add: addEntry_def kept_def)
    moreover have "scanInv fis h2 (Suc (brk h)) (acc @ kept flt [fi]) (ps @ [Suc (brk h1)])"
      using i2 False by (simp add: kept_def)
    moreover have "length gl \<le> length gl' + 2" by (simp add: gl)
    ultimately show ?thesis using g2 by blast
  next
    case room: False
    then have gf: "growIfFull h d = Inr (d, h)" using dl by (simp add: growIfFull_def)
    have s1: "bufLive fis h" "listShape h d acc ps" "length acc < capOf h d"
      using inv room dl by (auto simp: scanInv_def)
    have g1: "grants h = Grant g # map Grant (g' # gl')" using gr gl by simp
    from storeEntry_granted [OF s1 g1, of fi] obtain h2 where
      st: "storeEntry fi h d (length acc) = Inr (Next (h2, d, Suc (length acc)))"
      and i2: "scanInv fis h2 d (acc @ [entryOf fi]) (ps @ [Suc (brk h)])"
      and g2: "grants h2 = map Grant (g' # gl')"
      by auto
    have "addEntry flt fi h d (length acc) = Inr (Next (h2, d, length (acc @ kept flt [fi])))"
      using gf st False scanInv_basic(4) [OF inv] by (simp add: addEntry_def kept_def)
    moreover have "scanInv fis h2 d (acc @ kept flt [fi]) (ps @ [Suc (brk h)])"
      using i2 False by (simp add: kept_def)
    moreover have "length gl \<le> length (g' # gl') + 2" by (simp add: gl)
    ultimately show ?thesis using g2 by blast
  qed
qed

lemma scanBatch_total:
  assumes "scanInv fis h d acc ps" and "grants h = map Grant gl"
    and "2 * length batch \<le> length gl"
  shows "\<exists>h1 d1 ps1 gl1. scanBatch flt batch h d (length acc)
                            = Inr (Next (h1, d1, length (acc @ kept flt batch)))
           \<and> scanInv fis h1 d1 (acc @ kept flt batch) ps1
           \<and> grants h1 = map Grant gl1 \<and> length gl \<le> length gl1 + 2 * length batch"
  using assms
proof (induction batch arbitrary: h d acc ps gl)
  case Nil
  then show ?case by (auto simp: kept_def)
next
  case (Cons fi batch)
  from Cons.prems(3) have "2 \<le> length gl" by simp
  from addEntry_total [OF Cons.prems(1,2) this, of flt fi] obtain h1 d1 ps1 gl1 where
    a: "addEntry flt fi h d (length acc) = Inr (Next (h1, d1, length (acc @ kept flt [fi])))"
    and i1: "scanInv fis h1 d1 (acc @ kept flt [fi]) ps1"
    and g1: "grants h1 = map Grant gl1" "length gl \<le> length gl1 + 2"
    by blast
  from g1 Cons.prems(3) have "2 * length batch \<le> length gl1" by simp
  from Cons.IH [OF i1 g1(1) this] obtain h2 d2 ps2 gl2 where
    b: "scanBatch flt batch h1 d1 (length (acc @ kept flt [fi]))
          = Inr (Next (h2, d2, length ((acc @ kept flt [fi]) @ kept flt batch)))"
    and i2: "scanInv fis h2 d2 ((acc @ kept flt [fi]) @ kept flt batch) ps2"
    and g2: "grants h2 = map Grant gl2" "length gl1 \<le> length gl2 + 2 * length batch"
    by blast
  have k: "kept flt (fi # batch) = kept flt [fi] @ kept flt batch" by (rule kept_Cons)
  have "scanBatch flt (fi # batch) h d (length acc)
          = Inr (Next (h2, d2, length (acc @ kept flt (fi # batch))))"
    using a b by (simp add: k)
  moreover have "scanInv fis h2 d2 (acc @ kept flt (fi # batch)) ps2"
    using i2 by (simp add: k)
  moreover have "length gl \<le> length gl2 + 2 * length (fi # batch)"
    using g1 g2 by simp
  ultimately show ?case using g2(1) by blast
qed

lemma scanLoop_total:
  assumes "scanInv fis h d acc ps" and "grants h = map Grant gl"
    and "2 * length (entriesRead rds) \<le> length gl"
    and "\<forall>r \<in> set rds. fst r = RES_OK"
  shows "\<exists>h1 d1 ps1. scanLoop flt rds h d (length acc) = Inr (Next (RES_OK, h1, d1))
           \<and> scanInv fis h1 d1 (acc @ kept flt (entriesRead rds)) ps1"
  using assms
proof (induction rds arbitrary: h d acc ps gl)
  case Nil
  then show ?case by (auto simp: fReadDir_def kept_def)
next
  case (Cons r rds)
  obtain rr offer where r: "r = (rr, offer)" by (cases r)
  define batch where "batch = take DIR_READ_BLOCKS offer"
  from Cons.prems(4) r have ok: "rr = RES_OK" by simp
  show ?case
  proof (cases "batch = []")
    case True
    with Cons.prems(1) r ok show ?thesis
      by (auto simp: fReadDir_def Let_def kept_def batch_def)
  next
    case False
    then have er: "entriesRead (r # rds) = batch @ entriesRead rds"
      using r ok by (simp add: batch_def)
    with Cons.prems(3) have "2 * length batch \<le> length gl" by simp
    from scanBatch_total [OF Cons.prems(1,2) this, of flt] obtain h1 d1 ps1 gl1 where
      b: "scanBatch flt batch h d (length acc) = Inr (Next (h1, d1, length (acc @ kept flt batch)))"
      and i1: "scanInv fis h1 d1 (acc @ kept flt batch) ps1"
      and g1: "grants h1 = map Grant gl1" "length gl \<le> length gl1 + 2 * length batch"
      by blast
    from g1 Cons.prems(3) er have "2 * length (entriesRead rds) \<le> length gl1" by simp
    from Cons.IH [OF i1 g1(1) this] Cons.prems(4) obtain h2 d2 ps2 where
      "scanLoop flt rds h1 d1 (length (acc @ kept flt batch)) = Inr (Next (RES_OK, h2, d2))"
      "scanInv fis h2 d2 ((acc @ kept flt batch) @ kept flt (entriesRead rds)) ps2"
      by auto
    with b False r ok er show ?thesis
      by (auto simp: fReadDir_def Let_def batch_def [symmetric] kept_append)
  qed
qed

lemma qsortList_ok:
  assumes sh: "listShape h d acc ps" and sz: "sizeOf h d = length acc"
  shows "\<exists>h'. qsortList d h = Inr h'"
proof -
  from sh sz obtain dl where dl: "objs h d = Some (DList dl)" "length acc \<le> capacity dl"
      "length (entries dl) = capacity dl" "take (length acc) (entries dl) = map2 mkEntry acc ps"
      "size_dl dl = length acc"
    and basic: "d \<noteq> 0" "length ps = length acc"
    and names: "\<And>i. i < length acc \<Longrightarrow> objs h (ps ! i) = Some (Str (snd (acc ! i)))"
    by (auto simp: listShape_def sizeOf_def)
  have th: "those (map (resolve h) (take (size_dl dl) (entries dl))) = Some (zip acc ps)"
    using dl resolve_zip [OF basic(2) names] by simp
  have der: "derefList h d = Inr dl" using dl basic by (simp add: derefList_def)
  show ?thesis using der th dl by (simp add: qsortList_def)
qed

text \<open>
  A scan into an empty slot succeeds whenever the directory opens, every read
  succeeds and the allocator grants two requests per entry read and two more: the
  call returns \<^verbatim>\<open>RES_OK\<close> and leaves the kept entries, sorted, in the slot. The
  hypothesis of C5 and C6 is met by every such run.
\<close>

theorem scanDir_succeeds:
  assumes op: "fst (fsys path) = RES_OK"
    and rd: "\<forall>r \<in> set (snd (fsys path)). fst r = RES_OK"
    and gr: "grants h = map Grant gl"
    and gl: "2 + 2 * length (entriesRead (snd (fsys path))) \<le> length gl"
  shows "\<exists>d h'. scanDir path flt (Some 0) fsys h = Inr (RES_OK, Some d, h')
           \<and> listView h' d
               = Some (qsort dlistCompare (kept flt (entriesRead (snd (fsys path)))))"
proof -
  from gl obtain g1 g2 gl' where g: "gl = g1 # g2 # gl'"
    by (cases gl; cases "tl gl") auto
  let ?fis = "Suc (brk h)" and ?d = "Suc (Suc (brk h))"
  from gr g have "grants h = Grant g1 # Grant g2 # map Grant gl'" by simp
  from scan_start [OF this] obtain h1 h2 where
    al: "fcramAlloc (\<lambda>_. Fis) h = (?fis, h1)" and nw: "dlistNew h1 = (?d, h2)"
    and i2: "scanInv ?fis h2 ?d [] []" and g2: "grants h2 = map Grant gl'"
    by blast
  from gl g have "2 * length (entriesRead (snd (fsys path))) \<le> length gl'" by simp
  from scanLoop_total [OF i2 g2 this rd, of flt] obtain h3 d3 ps3 where
    lp: "scanLoop flt (snd (fsys path)) h2 ?d 0 = Inr (Next (RES_OK, h3, d3))"
    and i3: "scanInv ?fis h3 d3 (kept flt (entriesRead (snd (fsys path)))) ps3"
    by auto
  obtain h4 where fr: "fcramFree ?fis h3 = Inr h4"
    using scanInv_basic [OF i3] by (auto simp: fcramFree_def)
  from free_buf_keeps_list [OF i3 fr] have
    s4: "listShape h4 d3 (kept flt (entriesRead (snd (fsys path)))) ps3"
      "sizeOf h4 d3 = length (kept flt (entriesRead (snd (fsys path))))"
    by auto
  from qsortList_ok [OF s4] obtain h5 where qs: "qsortList d3 h4 = Inr h5" by auto
  have "scanDir path flt (Some 0) fsys h = Inr (RES_OK, Some d3, h5)"
    using al nw lp fr qs op by (simp add: scanDir_def fOpenDir_def)
  with qsortList_view [OF s4 qs] show ?thesis by auto
qed


theorem scanDir_succeeds_witness:
  "fst (romDir ''sdmc:/'') = RES_OK
   \<and> grants (heapOf (map Grant (replicate 14 0))) = map Grant (replicate 14 0)
   \<and> (\<exists>d h'. scanDir ''sdmc:/'' ''.gba'' (Some 0) romDir (heapOf (map Grant (replicate 14 0)))
                = Inr (RES_OK, Some d, h')
         \<and> listView h' d
             = Some [(ENTRY_DIRECTORY, ''saves''), (ENTRY_FILE, ''a.gba''), (ENTRY_FILE, ''b.gba'')])"
proof -
  have 1: "fst (romDir ''sdmc:/'') = RES_OK" by (simp add: romDir_def)
  have 2: "\<forall>r \<in> set (snd (romDir ''sdmc:/'')). fst r = RES_OK" by (simp add: romDir_def)
  have 3: "grants (heapOf (map Grant (replicate 14 0))) = map Grant (replicate 14 0)"
    by (simp add: heapOf_def)
  have 4: "2 + 2 * length (entriesRead (snd (romDir ''sdmc:/''))) \<le> length (replicate 14 (0::nat))"
    by (simp add: romDir_def DIR_READ_BLOCKS_def)
  have 5: "qsort dlistCompare (kept ''.gba'' (entriesRead (snd (romDir ''sdmc:/''))))
           = [(ENTRY_DIRECTORY, ''saves''), (ENTRY_FILE, ''a.gba''), (ENTRY_FILE, ''b.gba'')]"
    by (simp add: romDir_def DIR_READ_BLOCKS_def kept_def skipEntry_def entryOf_def strlen_def
        cstr_def NUL_def dlistCompare_def byte_def Let_def)
  from scanDir_succeeds [where fsys = romDir and path = "''sdmc:/''" and flt = "''.gba''"
      and h = "heapOf (map Grant (replicate 14 0))" and gl = "replicate 14 0", OF 1 2 3 4] 1 3
  show ?thesis
    by (simp add: 5)
qed

lemma dlistFree_ok:
  assumes sh: "listShape h d acc ps" and sz: "sizeOf h d = length acc"
  shows "\<exists>h'. dlistFree d h = Inr h'
           \<and> objs h' = (\<lambda>a. if a = d \<or> a \<in> set ps then None else objs h a)"
proof -
  from sh sz obtain dl where dl: "objs h d = Some (DList dl)" "length acc \<le> capacity dl"
      "length (entries dl) = capacity dl" "take (length acc) (entries dl) = map2 mkEntry acc ps"
      "size_dl dl = length acc"
    and basic: "d \<noteq> 0" "length ps = length acc" "distinct ps"
    and names: "\<And>i. i < length acc \<Longrightarrow>
        ps ! i \<noteq> 0 \<and> objs h (ps ! i) = Some (Str (snd (acc ! i)))"
    by (auto simp: listShape_def sizeOf_def)
  have der: "derefList h d = Inr dl" using dl basic by (simp add: derefList_def)
  have lv: "\<forall>q \<in> set ps. q \<noteq> 0 \<and> objs h q \<noteq> None"
  proof
    fix q assume "q \<in> set ps"
    then obtain i where "i < length acc" "ps ! i = q"
      using basic by (auto simp: in_set_conv_nth)
    with names [of i] show "q \<noteq> 0 \<and> objs h q \<noteq> None" by auto
  qed
  have dps: "d \<notin> set ps"
  proof
    assume "d \<in> set ps"
    then obtain i where "i < length acc" "ps ! i = d"
      using basic by (auto simp: in_set_conv_nth)
    with names [of i] dl(1) show False by simp
  qed
  from freeNames_ok [OF basic(2) [symmetric] basic(3) lv] obtain h1 where
    fn: "freeNames (map2 mkEntry acc ps) h = Inr h1"
    and o1: "objs h1 = (\<lambda>a. if a \<in> set ps then None else objs h a)"
    by auto
  define h2 where "h2 = h1\<lparr>objs := (objs h1)(d := None)\<rparr>"
  have "fcramFree d h1 = Inr h2"
    using basic dps dl by (simp add: fcramFree_def o1 h2_def)
  then have "dlistFree d h = Inr h2"
    using der dl fn by (simp add: dlistFree_def)
  moreover have "objs h2 = (\<lambda>a. if a = d \<or> a \<in> set ps then None else objs h a)"
    by (auto simp: h2_def o1)
  ultimately show ?thesis by blast
qed

text \<open>
  Between two entries the list is well formed: its size is the number of entries
  stored, at most its capacity, each of these entries has its kind and a name of its
  own, and \<^verbatim>\<open>dlistFree\<close> there frees exactly the names and the block. This is what
  holds of C10: the size is wrong only from \<^verbatim>\<open>dlistGrow\<close> to line 156.
\<close>

theorem scan_state_between_entries:
  assumes "scanInv fis h d acc ps"
    and "scanBatch flt batch h d (length acc) = Inr (Next (h', d', n'))"
  shows "\<exists>ps'. scanInv fis h' d' (acc @ kept flt batch) ps'
           \<and> n' = length (acc @ kept flt batch)
           \<and> sizeOf h' d' = n' \<and> n' \<le> capOf h' d'
           \<and> (\<exists>h''. dlistFree d' h' = Inr h''
                 \<and> objs h'' = (\<lambda>a. if a = d' \<or> a \<in> set ps' then None else objs h' a))"
proof -
  from scanBatch_Next [OF assms] obtain ps' where
    i: "scanInv fis h' d' (acc @ kept flt batch) ps'" and n: "n' = length (acc @ kept flt batch)"
    by auto
  from i have sh: "listShape h' d' (acc @ kept flt batch) ps'"
    and sz: "sizeOf h' d' = length (acc @ kept flt batch)"
    by (simp_all add: scanInv_def)
  from i obtain dl where "objs h' d' = Some (DList dl)"
    "length (acc @ kept flt batch) \<le> capacity dl" "capOf h' d' = capacity dl"
    by (rule scanInv_dl)
  then have "n' \<le> capOf h' d'" using n by simp
  with dlistFree_ok [OF sh sz] i n sz show ?thesis by auto
qed

theorem scan_state_between_entries_witness:
  "scanInv 1 (snd (dlistNew (snd (fcramAlloc (\<lambda>_. Fis) (heapOf [Grant 0, Grant 0, Grant 0]))))) 2 [] []
   \<and> (\<exists>h' ps'. scanBatch ''.gba'' [\<lparr>fattrib = 0x10, fname = ''saves''\<rparr>,
                                   \<lparr>fattrib = 0x20, fname = ''c.txt''\<rparr>]
                   (snd (dlistNew (snd (fcramAlloc (\<lambda>_. Fis) (heapOf [Grant 0, Grant 0, Grant 0])))))
                   2 0 = Inr (Next (h', 2, 1))
          \<and> scanInv 1 h' 2 [(ENTRY_DIRECTORY, ''saves'')] ps'
          \<and> sizeOf h' 2 = 1 \<and> 1 \<le> capOf h' 2
          \<and> (\<exists>h''. dlistFree 2 h' = Inr h''
                \<and> objs h'' = (\<lambda>a. if a = 2 \<or> a \<in> set ps' then None else objs h' a)))"
proof -
  let ?start = "heapOf [Grant 0, Grant 0, Grant 0]"
  let ?h = "snd (dlistNew (snd (fcramAlloc (\<lambda>_. Fis) ?start)))"
  let ?batch = "[\<lparr>fattrib = 0x10, fname = ''saves''\<rparr>, \<lparr>fattrib = 0x20, fname = ''c.txt''\<rparr>]"
  have g: "grants ?start = Grant 0 # Grant 0 # [Grant 0]" "brk ?start = 0"
    by (simp_all add: heapOf_def)
  from scan_start [OF g(1)] obtain h2 where
    al: "fcramAlloc (\<lambda>_. Fis) ?start = (Suc (brk ?start), ?start\<lparr>objs := (objs ?start)(Suc (brk ?start) \<mapsto> Fis),
           brk := Suc (brk ?start), grants := Grant 0 # [Grant 0]\<rparr>)"
    and nw: "dlistNew (?start\<lparr>objs := (objs ?start)(Suc (brk ?start) \<mapsto> Fis),
           brk := Suc (brk ?start), grants := Grant 0 # [Grant 0]\<rparr>) = (Suc (Suc (brk ?start)), h2)"
    and i2: "scanInv (Suc (brk ?start)) h2 (Suc (Suc (brk ?start))) [] []"
    and g2: "grants h2 = [Grant 0]"
    by blast
  have hh: "?h = h2" by (simp add: al nw)
  have e: "Suc (brk ?start) = 1" "Suc 1 = 2" using g(2) by simp_all
  have inv: "scanInv 1 ?h 2 [] []" using i2 unfolding e hh .
  have k: "kept ''.gba'' ?batch = [(ENTRY_DIRECTORY, ''saves'')]"
    by (simp add: kept_def skipEntry_def entryOf_def strlen_def cstr_def NUL_def Let_def
        byte_def)
  have room: "length ([] :: (DirEntryType \<times> string) list) < capOf ?h 2"
    using scan_start [OF g(1)] al nw unfolding e
    by (auto simp: DLIST_GROW_SIZE_def)
  have gr: "grants ?h = Grant 0 # []" using g2 by (simp add: hh)
  have adm: "\<not> skipEntry ''.gba'' \<lparr>fattrib = 0x10, fname = ''saves''\<rparr>" by (rule keep_dir)
  from addEntry_granted [OF inv room gr adm] obtain h3 where
    a: "addEntry ''.gba'' \<lparr>fattrib = 0x10, fname = ''saves''\<rparr> ?h 2 (length ([] :: (DirEntryType \<times> string) list))
          = Inr (Next (h3, 2, Suc (length ([] :: (DirEntryType \<times> string) list))))"
    by blast
  have sk: "skipEntry ''.gba'' \<lparr>fattrib = 0x20, fname = ''c.txt''\<rparr>"
    by (simp add: skipEntry_def strlen_def cstr_def NUL_def Let_def byte_def)
  have b: "scanBatch ''.gba'' ?batch ?h 2 0 = Inr (Next (h3, 2, 1))"
    using a sk by (simp add: addEntry_def)
  from scan_state_between_entries [OF inv, of "''.gba''" ?batch h3 2 1] b inv
  show ?thesis by (simp add: k)
qed

end
